theory Spec2Isabelle
  imports Main "HOL-Library.Word" "HOL-Library.Multiset" "HOL-Library.AList"
begin

section \<open>The gRPC connection pool of pkg/grpc/client\<close>

text \<open>
  A shallow embedding of \<^verbatim>\<open>ConnPool\<close> (the pool part of pkg/grpc/client). Each method is
  one step on the pool state, taken as a whole: the locks \<^verbatim>\<open>p.mu\<close> and \<^verbatim>\<open>pool.mu\<close> are
  left out, and no other call runs between the two locked parts of \<^verbatim>\<open>GetConn\<close> or of
  \<^verbatim>\<open>CloseAddress\<close>. Every \<^verbatim>\<open>*ConnInfo\<close> is reachable from one slot of one collection only,
  so the collections are lists of values. What the pool takes from outside is passed in:
  \<^item> \<open>gs\<close>, what \<^verbatim>\<open>conn.GetState()\<close> answers for a handle during the call;
  \<^item> \<open>cl\<close>, the error (if any) that \<^verbatim>\<open>conn.Close()\<close> returns for a handle;
  \<^item> \<open>dial\<close>, the outcome of \<^verbatim>\<open>grpc.Dial(address, opts...)\<close>;
  \<^item> the readings of \<^verbatim>\<open>time.Now()\<close>, in the order the body takes them;
  \<^item> \<open>maxCap\<close>, the largest capacity for which \<^verbatim>\<open>make\<close> returns a slice.
  A handle (\<^verbatim>\<open>*grpc.ClientConn\<close>) is a pointer, compared by identity: a natural number here.
  Every \<^verbatim>\<open>conn.Close()\<close> the pool performs is appended to \<open>closeLog\<close>.
\<close>

subsection \<open>Data\<close>

type_synonym handle = nat
type_synonym ext_error = string

datatype conn_state = Idle | Connecting | Ready | TransientFailure | Shutdown

text \<open>\<^verbatim>\<open>time.Time\<close> readings are instants in nanoseconds; \<^verbatim>\<open>time.Duration\<close> and
  \<^verbatim>\<open>int32\<close> are machine integers, read signed.\<close>

type_synonym instant = int
type_synonym duration = "64 word"
type_synonym int32 = "32 word"

record ConnInfo =
  conn :: handle
  lastUsed :: instant
  createdAt :: instant
  state :: conn_state
  load :: int32
  isStream :: bool

record AddressPool =
  address :: string
  unaryConns :: "ConnInfo list"
  streamConns :: "ConnInfo list"

record PoolConfig =
  MinConnsPerAddr :: int
  MaxConnsPerAddr :: int
  MaxIdleConns :: int
  MaxLoadPerConn :: int32
  ConnMaxLifetime :: duration
  ConnMaxIdleTime :: duration
  DialTimeout :: duration

text \<open>\<open>pools = None\<close> is the nil map that \<^verbatim>\<open>Close\<close> leaves; \<open>stopped\<close> says that
  \<^verbatim>\<open>stopChan\<close> has been closed. The Go map is a list of pairs with the key looked up by
  \<open>map_of\<close>; a \<^verbatim>\<open>range\<close> over it visits the pairs in list order (Go fixes no order, and
  every statement below holds for any order of the list).\<close>

record ConnPool =
  pools :: "(string \<times> AddressPool) list option"
  config :: PoolConfig
  stopped :: bool
  closeLog :: "handle list"

datatype pool_error =
    DialFailed ext_error
  | PoolExhausted string int
  | CloseUnaryError ext_error
  | CloseStreamError ext_error
  | TransportError ext_error

datatype panic = NilMapWrite | MakeSliceCap | CloseOfClosedChannel

datatype 'a result = Ok 'a | Err pool_error | Panic panic

text \<open>The three clock readings of one \<^verbatim>\<open>GetConn\<close>: the seed
  (\<^verbatim>\<open>time.Now().UnixNano()\<close>, nanoseconds since 1970), then the reading stored in
  \<open>lastUsed\<close> (by either branch), then the one stored in \<open>createdAt\<close>.\<close>

record clock =
  seed :: nat
  now1 :: instant
  now2 :: instant

subsection \<open>Construction\<close>

definition second :: duration where
  "second = 1000000000"

definition DefaultPoolConfig :: PoolConfig where
  "DefaultPoolConfig =
     \<lparr>MinConnsPerAddr = 2, MaxConnsPerAddr = 10, MaxIdleConns = 2, MaxLoadPerConn = 100,
      ConnMaxLifetime = 3600 * second, ConnMaxIdleTime = 30 * 60 * second,
      DialTimeout = 5 * second\<rparr>"

definition NewConnPool :: "PoolConfig option \<Rightarrow> ConnPool" where
  "NewConnPool cfg =
     \<lparr>pools = Some [],
      config = (case cfg of None \<Rightarrow> DefaultPoolConfig | Some c \<Rightarrow> c),
      stopped = False, closeLog = []\<rparr>"

text \<open>Reading the map: a nil map reads as empty.\<close>

definition pool_list :: "ConnPool \<Rightarrow> (string \<times> AddressPool) list" where
  "pool_list p = (case pools p of None \<Rightarrow> [] | Some ps \<Rightarrow> ps)"

definition lookup_pool :: "ConnPool \<Rightarrow> string \<Rightarrow> AddressPool option" where
  "lookup_pool p a = map_of (pool_list p) a"

definition conns_of :: "bool \<Rightarrow> AddressPool \<Rightarrow> ConnInfo list" where
  "conns_of strm pool = (if strm then streamConns pool else unaryConns pool)"

definition set_conns :: "bool \<Rightarrow> ConnInfo list \<Rightarrow> AddressPool \<Rightarrow> AddressPool" where
  "set_conns strm cs pool = (if strm then pool\<lparr>streamConns := cs\<rparr> else pool\<lparr>unaryConns := cs\<rparr>)"

subsection \<open>GetConn\<close>

text \<open>The test of the scan: \<^verbatim>\<open>GetState() == Ready\<close> and \<^verbatim>\<open>load < MaxLoadPerConn\<close>.\<close>

definition eligible :: "PoolConfig \<Rightarrow> (handle \<Rightarrow> conn_state) \<Rightarrow> ConnInfo \<Rightarrow> bool" where
  "eligible cfg gs c \<longleftrightarrow> gs (conn c) = Ready \<and> sint (load c) < sint (MaxLoadPerConn cfg)"

text \<open>The loop \<^verbatim>\<open>for i := 0; i < len(conns); i++\<close> of \<^verbatim>\<open>GetConn\<close>, from \<open>i\<close> on:
  the index of the entry it returns from, or \<open>None\<close> when it runs to the end.\<close>

function scan :: "PoolConfig \<Rightarrow> (handle \<Rightarrow> conn_state) \<Rightarrow> ConnInfo list \<Rightarrow> nat \<Rightarrow> nat \<Rightarrow> nat option" where
  "scan cfg gs conns startIndex i =
     (if i < length conns then
        (let index = (startIndex + i) mod length conns in
         if eligible cfg gs (conns ! index) then Some index
         else scan cfg gs conns startIndex (i + 1))
      else None)"
  by pat_completeness auto
termination
  by (relation "measure (\<lambda>(cfg, gs, conns, startIndex, i). length conns - i)") auto

text \<open>The body of \<^verbatim>\<open>GetConn\<close> under \<^verbatim>\<open>pool.mu\<close>, on the collection \<open>conns\<close> of the
  mode: step 1 selects an entry through the scan, step 2 dials and appends, step 3 gives up.
  The result is what is returned and the collection as the call leaves it.\<close>

definition select_or_create ::
  "PoolConfig \<Rightarrow> (handle \<Rightarrow> conn_state) \<Rightarrow> clock \<Rightarrow> ext_error + handle \<Rightarrow> string \<Rightarrow> bool
     \<Rightarrow> ConnInfo list \<Rightarrow> handle result \<times> ConnInfo list" where
  "select_or_create cfg gs clk dial addr strm conns =
     (case (if length conns > 0 then scan cfg gs conns (seed clk mod length conns) 0 else None) of
        Some index \<Rightarrow>
          (let connInfo = conns ! index in
           (Ok (conn connInfo),
            conns[index := connInfo\<lparr>lastUsed := now1 clk, load := load connInfo + 1\<rparr>]))
      | None \<Rightarrow>
          if int (length conns) < MaxConnsPerAddr cfg then
            (case dial of
               Inl e \<Rightarrow> (Err (DialFailed e), conns)
             | Inr c \<Rightarrow>
                 (Ok c,
                  conns @ [\<lparr>conn = c, lastUsed = now1 clk, createdAt = now2 clk, state = Ready,
                            load = 1, isStream = strm\<rparr>]))
          else (Err (PoolExhausted addr (MaxConnsPerAddr cfg)), conns))"

definition GetConn_locked ::
  "PoolConfig \<Rightarrow> (handle \<Rightarrow> conn_state) \<Rightarrow> clock \<Rightarrow> ext_error + handle \<Rightarrow> string \<Rightarrow> bool
     \<Rightarrow> AddressPool \<Rightarrow> handle result \<times> AddressPool" where
  "GetConn_locked cfg gs clk dial addr strm pool =
     (let (r, conns') = select_or_create cfg gs clk dial addr strm (conns_of strm pool)
      in (r, set_conns strm conns' pool))"

text \<open>\<^verbatim>\<open>make([]*ConnInfo, 0, n)\<close> panics (makeslice: cap out of range) on a capacity that is
  negative or too large. How large is too large is fixed by the Go runtime and the platform,
  not by the source: \<open>maxCap\<close> stands for the largest capacity for which \<^verbatim>\<open>make\<close> returns.\<close>

definition make_ok :: "int \<Rightarrow> int \<Rightarrow> bool" where
  "make_ok maxCap n \<longleftrightarrow> 0 \<le> n \<and> n \<le> maxCap"

text \<open>The whole method. A missing address gets a new \<^verbatim>\<open>AddressPool\<close>: the two
  \<^verbatim>\<open>make([]*ConnInfo, 0, MinConnsPerAddr)\<close> come first and panic on a capacity that
  \<^verbatim>\<open>make\<close> refuses, and then the assignment \<^verbatim>\<open>p.pools[address] = pool\<close> panics on the
  nil map.\<close>

definition GetConn ::
  "int \<Rightarrow> ConnPool \<Rightarrow> (handle \<Rightarrow> conn_state) \<Rightarrow> clock \<Rightarrow> ext_error + handle \<Rightarrow> string \<Rightarrow> bool
     \<Rightarrow> handle result \<times> ConnPool" where
  "GetConn maxCap p gs clk dial addr strm =
     (case lookup_pool p addr of
        None \<Rightarrow>
          if \<not> make_ok maxCap (MinConnsPerAddr (config p)) then (Panic MakeSliceCap, p)
          else
            (case pools p of
               None \<Rightarrow> (Panic NilMapWrite, p)
             | Some ps \<Rightarrow>
                 (let pool = \<lparr>address = addr, unaryConns = [], streamConns = []\<rparr>;
                      (r, pool') = GetConn_locked (config p) gs clk dial addr strm pool
                  in (r, p\<lparr>pools := Some (AList.update addr pool' ps)\<rparr>)))
      | Some pool \<Rightarrow>
          (let (r, pool') = GetConn_locked (config p) gs clk dial addr strm pool
           in (r, p\<lparr>pools := Some (AList.update addr pool' (pool_list p))\<rparr>)))"

subsection \<open>ReleaseConn\<close>

text \<open>One \<^verbatim>\<open>for _, connInfo := range conns\<close> of \<^verbatim>\<open>ReleaseConn\<close>: \<open>Some\<close> of the
  updated collection when it returned from inside, \<open>None\<close> when it ran to the end.\<close>

fun release_in :: "handle \<Rightarrow> ConnInfo list \<Rightarrow> ConnInfo list option" where
  "release_in h [] = None"
| "release_in h (c # cs) =
     (if conn c = h then Some (c\<lparr>load := load c - 1\<rparr> # cs)
      else map_option ((#) c) (release_in h cs))"

fun release_pools :: "handle \<Rightarrow> (string \<times> AddressPool) list \<Rightarrow> (string \<times> AddressPool) list" where
  "release_pools h [] = []"
| "release_pools h ((a, pool) # ps) =
     (case release_in h (unaryConns pool) of
        Some cs \<Rightarrow> (a, pool\<lparr>unaryConns := cs\<rparr>) # ps
      | None \<Rightarrow>
          (case release_in h (streamConns pool) of
             Some cs \<Rightarrow> (a, pool\<lparr>streamConns := cs\<rparr>) # ps
           | None \<Rightarrow> (a, pool) # release_pools h ps))"

definition ReleaseConn :: "ConnPool \<Rightarrow> handle \<Rightarrow> ConnPool" where
  "ReleaseConn p h = p\<lparr>pools := map_option (release_pools h) (pools p)\<rparr>"

subsection \<open>The sweep of cleanupLoop\<close>

text \<open>\<^verbatim>\<open>Time.Sub\<close> saturates at the ends of \<^verbatim>\<open>int64\<close>.\<close>

definition Sub :: "instant \<Rightarrow> instant \<Rightarrow> int" where
  "Sub t u = max (- (2 ^ 63)) (min (2 ^ 63 - 1) (t - u))"

definition failed :: "(handle \<Rightarrow> conn_state) \<Rightarrow> ConnInfo \<Rightarrow> bool" where
  "failed gs c \<longleftrightarrow> gs (conn c) = TransientFailure \<or> gs (conn c) = Shutdown"

definition expired :: "PoolConfig \<Rightarrow> instant \<Rightarrow> ConnInfo \<Rightarrow> bool" where
  "expired cfg now c \<longleftrightarrow>
     load c = 0 \<and>
     (Sub now (lastUsed c) > sint (ConnMaxIdleTime cfg) \<or>
      Sub now (createdAt c) > sint (ConnMaxLifetime cfg))"

text \<open>The loop \<^verbatim>\<open>for i := 0; i < len(conns); i++\<close> of the sweep over one collection, from
  \<open>i\<close> on. A removal overwrites slot \<open>i\<close> with the last entry, drops the last slot and
  undoes the coming \<^verbatim>\<open>i++\<close>, so the loop goes on at \<open>i\<close>.\<close>

function sweep_conns ::
  "PoolConfig \<Rightarrow> (handle \<Rightarrow> conn_state) \<Rightarrow> instant \<Rightarrow> nat \<Rightarrow> ConnInfo list \<Rightarrow> handle list
     \<Rightarrow> ConnInfo list \<times> handle list" where
  "sweep_conns cfg gs now i conns log =
     (if i < length conns then
        (let c = conns ! i in
         if failed gs c then
           sweep_conns cfg gs now i (butlast (conns[i := last conns])) (log @ [conn c])
         else if expired cfg now c then
           sweep_conns cfg gs now i (butlast (conns[i := last conns])) (log @ [conn c])
         else sweep_conns cfg gs now (i + 1) conns log)
      else (conns, log))"
  by pat_completeness auto
termination
  by (relation "measure (\<lambda>(cfg, gs, now, i, conns, log). length conns - i)") auto

definition sweep_pool ::
  "PoolConfig \<Rightarrow> (handle \<Rightarrow> conn_state) \<Rightarrow> instant \<Rightarrow> AddressPool \<Rightarrow> handle list
     \<Rightarrow> AddressPool \<times> handle list" where
  "sweep_pool cfg gs now pool log =
     (let (u, log1) = sweep_conns cfg gs now 0 (unaryConns pool) log;
          (s, log2) = sweep_conns cfg gs now 0 (streamConns pool) log1
      in (pool\<lparr>unaryConns := u, streamConns := s\<rparr>, log2))"

text \<open>\<^verbatim>\<open>now := time.Now()\<close> is read once for each pool: \<open>nowf a\<close> is the reading taken
  for address \<open>a\<close>.\<close>

fun sweep_pools ::
  "PoolConfig \<Rightarrow> (handle \<Rightarrow> conn_state) \<Rightarrow> (string \<Rightarrow> instant) \<Rightarrow> (string \<times> AddressPool) list
     \<Rightarrow> handle list \<Rightarrow> (string \<times> AddressPool) list \<times> handle list" where
  "sweep_pools cfg gs nowf [] log = ([], log)"
| "sweep_pools cfg gs nowf ((a, pool) # ps) log =
     (let (pool', log1) = sweep_pool cfg gs (nowf a) pool log;
          (ps', log2) = sweep_pools cfg gs nowf ps log1
      in ((a, pool') # ps', log2))"

text \<open>One round of \<^verbatim>\<open>case <-p.cleanup.C\<close>.\<close>

definition cleanupLoop_tick :: "ConnPool \<Rightarrow> (handle \<Rightarrow> conn_state) \<Rightarrow> (string \<Rightarrow> instant) \<Rightarrow> ConnPool" where
  "cleanupLoop_tick p gs nowf =
     (case pools p of
        None \<Rightarrow> p
      | Some ps \<Rightarrow>
          (let (ps', log') = sweep_pools (config p) gs nowf ps (closeLog p)
           in p\<lparr>pools := Some ps', closeLog := log'\<rparr>))"

subsection \<open>Stats\<close>

record counters =
  total_connections :: nat
  ready_connections :: nat
  idle_connections :: nat
  failed_connections :: nat
  total_load :: int32

record mode_stats =
  by_address :: "string \<rightharpoonup> counters"
  total :: counters

record stats =
  unary :: mode_stats
  stream :: mode_stats

definition zero_counters :: counters where
  "zero_counters =
     \<lparr>total_connections = 0, ready_connections = 0, idle_connections = 0,
      failed_connections = 0, total_load = 0\<rparr>"

text \<open>One round of \<^verbatim>\<open>for _, connInfo := range pool.unaryConns\<close> in \<^verbatim>\<open>Stats\<close>: the
  \<^verbatim>\<open>switch state\<close>, then the addition to \<^verbatim>\<open>total_load\<close>.\<close>

definition count_conn :: "(handle \<Rightarrow> conn_state) \<Rightarrow> counters \<Rightarrow> ConnInfo \<Rightarrow> counters" where
  "count_conn gs s connInfo =
     (let st = gs (conn connInfo);
          l = load connInfo;
          s1 = (case st of
                  Ready \<Rightarrow>
                    (let s' = s\<lparr>ready_connections := ready_connections s + 1\<rparr>
                     in if l = 0 then s'\<lparr>idle_connections := idle_connections s' + 1\<rparr> else s')
                | TransientFailure \<Rightarrow> s\<lparr>failed_connections := failed_connections s + 1\<rparr>
                | Shutdown \<Rightarrow> s\<lparr>failed_connections := failed_connections s + 1\<rparr>
                | _ \<Rightarrow> s)
      in s1\<lparr>total_load := total_load s1 + l\<rparr>)"

definition addr_stats :: "(handle \<Rightarrow> conn_state) \<Rightarrow> ConnInfo list \<Rightarrow> counters" where
  "addr_stats gs conns = foldl (count_conn gs) (zero_counters\<lparr>total_connections := length conns\<rparr>) conns"

definition add_counters :: "counters \<Rightarrow> counters \<Rightarrow> counters" where
  "add_counters t a =
     \<lparr>total_connections = total_connections t + total_connections a,
      ready_connections = ready_connections t + ready_connections a,
      idle_connections = idle_connections t + idle_connections a,
      failed_connections = failed_connections t + failed_connections a,
      total_load = total_load t + total_load a\<rparr>"

definition add_addr :: "string \<Rightarrow> counters \<Rightarrow> mode_stats \<Rightarrow> mode_stats" where
  "add_addr addr a m = \<lparr>by_address = (by_address m)(addr \<mapsto> a), total = add_counters (total m) a\<rparr>"

text \<open>One round of \<^verbatim>\<open>for addr, pool := range p.pools\<close>.\<close>

definition Stats_step :: "(handle \<Rightarrow> conn_state) \<Rightarrow> stats \<Rightarrow> string \<times> AddressPool \<Rightarrow> stats" where
  "Stats_step gs st ap =
     (case ap of (addr, pool) \<Rightarrow>
        \<lparr>unary = add_addr addr (addr_stats gs (unaryConns pool)) (unary st),
         stream = add_addr addr (addr_stats gs (streamConns pool)) (stream st)\<rparr>)"

definition empty_stats :: stats where
  "empty_stats =
     \<lparr>unary = \<lparr>by_address = Map.empty, total = zero_counters\<rparr>,
      stream = \<lparr>by_address = Map.empty, total = zero_counters\<rparr>\<rparr>"

definition Stats :: "ConnPool \<Rightarrow> (handle \<Rightarrow> conn_state) \<Rightarrow> stats" where
  "Stats p gs = foldl (Stats_step gs) empty_stats (pool_list p)"

subsection \<open>Close and CloseAddress\<close>

text \<open>One \<^verbatim>\<open>for _, connInfo := range conns\<close> that closes every handle; \<open>wrap\<close> is what
  the loop stores in \<^verbatim>\<open>lastErr\<close> for an error of \<^verbatim>\<open>conn.Close()\<close>.\<close>

fun close_conns ::
  "(handle \<Rightarrow> ext_error option) \<Rightarrow> (ext_error \<Rightarrow> pool_error) \<Rightarrow> ConnInfo list
     \<Rightarrow> pool_error option \<times> handle list \<Rightarrow> pool_error option \<times> handle list" where
  "close_conns cl wrap [] (lastErr, log) = (lastErr, log)"
| "close_conns cl wrap (c # cs) (lastErr, log) =
     close_conns cl wrap cs
       ((case cl (conn c) of Some e \<Rightarrow> Some (wrap e) | None \<Rightarrow> lastErr), log @ [conn c])"

fun close_pools ::
  "(handle \<Rightarrow> ext_error option) \<Rightarrow> (string \<times> AddressPool) list
     \<Rightarrow> pool_error option \<times> handle list \<Rightarrow> pool_error option \<times> handle list" where
  "close_pools cl [] acc = acc"
| "close_pools cl ((a, pool) # ps) acc =
     close_pools cl ps
       (close_conns cl TransportError (streamConns pool)
          (close_conns cl TransportError (unaryConns pool) acc))"

definition to_result :: "pool_error option \<Rightarrow> unit result" where
  "to_result lastErr = (case lastErr of None \<Rightarrow> Ok () | Some e \<Rightarrow> Err e)"

text \<open>\<^verbatim>\<open>close(p.stopChan)\<close> panics on a channel that is already closed. The collections
  that \<^verbatim>\<open>Close\<close> sets to nil belong to pools that leave the state with the map.\<close>

definition Close :: "ConnPool \<Rightarrow> (handle \<Rightarrow> ext_error option) \<Rightarrow> unit result \<times> ConnPool" where
  "Close p cl =
     (if stopped p then (Panic CloseOfClosedChannel, p)
      else
        (let (lastErr, log') = close_pools cl (pool_list p) (None, closeLog p)
         in (to_result lastErr, p\<lparr>pools := None, stopped := True, closeLog := log'\<rparr>)))"

text \<open>\<^verbatim>\<open>delete(p.pools, address)\<close> takes the pool out of the map; the writes that follow
  (\<^verbatim>\<open>connInfo.state = Shutdown\<close>, the nil collections) go to that removed pool.\<close>

definition CloseAddress ::
  "ConnPool \<Rightarrow> (handle \<Rightarrow> ext_error option) \<Rightarrow> string \<Rightarrow> unit result \<times> ConnPool" where
  "CloseAddress p cl addr =
     (case lookup_pool p addr of
        None \<Rightarrow> (Ok (), p)
      | Some pool \<Rightarrow>
          (let (lastErr, log') =
                 close_conns cl CloseStreamError (streamConns pool)
                   (close_conns cl CloseUnaryError (unaryConns pool) (None, closeLog p))
           in (to_result lastErr,
               p\<lparr>pools := Some (AList.delete addr (pool_list p)), closeLog := log'\<rparr>)))"

subsection \<open>Sequences of calls\<close>

datatype op =
    OpGetConn int "handle \<Rightarrow> conn_state" clock "ext_error + handle" string bool
  | OpReleaseConn handle
  | OpSweep "handle \<Rightarrow> conn_state" "string \<Rightarrow> instant"
  | OpCloseAddress "handle \<Rightarrow> ext_error option" string
  | OpClose "handle \<Rightarrow> ext_error option"

fun step :: "ConnPool \<Rightarrow> op \<Rightarrow> ConnPool" where
  "step p (OpGetConn maxCap gs clk dial addr strm) = snd (GetConn maxCap p gs clk dial addr strm)"
| "step p (OpReleaseConn h) = ReleaseConn p h"
| "step p (OpSweep gs nowf) = cleanupLoop_tick p gs nowf"
| "step p (OpCloseAddress cl addr) = snd (CloseAddress p cl addr)"
| "step p (OpClose cl) = snd (Close p cl)"

definition run :: "ConnPool \<Rightarrow> op list \<Rightarrow> ConnPool" where
  "run p ops = foldl step p ops"

subsection \<open>Properties of states\<close>

text \<open>The notions in which the properties of the pool are stated. They follow the
  specification and are compared with the code below.

  The collection of one mode at one address; a missing address has none.\<close>

definition entries :: "ConnPool \<Rightarrow> string \<Rightarrow> bool \<Rightarrow> ConnInfo list" where
  "entries p a strm = (case lookup_pool p a of None \<Rightarrow> [] | Some pool \<Rightarrow> conns_of strm pool)"

text \<open>All entries in the order in which \<^verbatim>\<open>ReleaseConn\<close> looks at them.\<close>

definition all_entries :: "(string \<times> AddressPool) list \<Rightarrow> ConnInfo list" where
  "all_entries ps = concat (map (\<lambda>(a, pool). unaryConns pool @ streamConns pool) ps)"

definition cap_inv :: "ConnPool \<Rightarrow> bool" where
  "cap_inv p \<longleftrightarrow>
     (\<forall>(a, pool) \<in> set (pool_list p).
        int (length (unaryConns pool)) \<le> MaxConnsPerAddr (config p) \<and>
        int (length (streamConns pool)) \<le> MaxConnsPerAddr (config p))"

definition load_inv :: "ConnPool \<Rightarrow> bool" where
  "load_inv p \<longleftrightarrow> (\<forall>c \<in> set (all_entries (pool_list p)). 0 \<le> sint (load c))"

text \<open>What one sweep removes: a broken handle, or an unused entry past a threshold.\<close>

definition evict :: "PoolConfig \<Rightarrow> (handle \<Rightarrow> conn_state) \<Rightarrow> instant \<Rightarrow> ConnInfo \<Rightarrow> bool" where
  "evict cfg gs now c \<longleftrightarrow> failed gs c \<or> expired cfg now c"

definition evicted_handles ::
  "PoolConfig \<Rightarrow> (handle \<Rightarrow> conn_state) \<Rightarrow> (string \<Rightarrow> instant) \<Rightarrow> (string \<times> AddressPool) list
     \<Rightarrow> handle list" where
  "evicted_handles cfg gs nowf ps =
     concat (map (\<lambda>(a, pool).
       map conn (filter (evict cfg gs (nowf a)) (unaryConns pool @ streamConns pool))) ps)"

text \<open>The first entry with handle \<open>h\<close> loses one unit of load.\<close>

fun dec_first :: "handle \<Rightarrow> ConnInfo list \<Rightarrow> ConnInfo list" where
  "dec_first h [] = []"
| "dec_first h (c # cs) = (if conn c = h then c\<lparr>load := load c - 1\<rparr> # cs else c # dec_first h cs)"

text \<open>The shape of the pool: the addresses and the handles of each collection, in order.\<close>

definition pool_shape :: "string \<times> AddressPool \<Rightarrow> string \<times> string \<times> handle list \<times> handle list" where
  "pool_shape = (\<lambda>(a, pool). (a, address pool, map conn (unaryConns pool), map conn (streamConns pool)))"

definition shape :: "ConnPool \<Rightarrow> (string \<times> string \<times> handle list \<times> handle list) list option" where
  "shape p = map_option (map pool_shape) (pools p)"

text \<open>A release is matched when it finds no entry, or one whose load is positive.\<close>

definition release_matched :: "ConnPool \<Rightarrow> handle \<Rightarrow> bool" where
  "release_matched p h =
     (case find (\<lambda>c. conn c = h) (all_entries (pool_list p)) of
        None \<Rightarrow> True
      | Some c \<Rightarrow> 0 < sint (load c))"

fun matched :: "ConnPool \<Rightarrow> op list \<Rightarrow> bool" where
  "matched p [] = True"
| "matched p (OpReleaseConn h # ops) = (release_matched p h \<and> matched (ReleaseConn p h) ops)"
| "matched p (x # ops) = matched (step p x) ops"

text \<open>The counters of one collection in the words of the specification: entries, ready
  entries, ready entries with load 0, broken entries, and the sum of the loads.\<close>

definition counters_of :: "(handle \<Rightarrow> conn_state) \<Rightarrow> ConnInfo list \<Rightarrow> counters" where
  "counters_of gs cs =
     \<lparr>total_connections = length cs,
      ready_connections = length (filter (\<lambda>c. gs (conn c) = Ready) cs),
      idle_connections = length (filter (\<lambda>c. gs (conn c) = Ready \<and> load c = 0) cs),
      failed_connections = length (filter (failed gs) cs),
      total_load = sum_list (map load cs)\<rparr>"

text \<open>The errors that closing a collection stores in \<^verbatim>\<open>lastErr\<close>, in order.\<close>

definition close_errors ::
  "(handle \<Rightarrow> ext_error option) \<Rightarrow> (ext_error \<Rightarrow> pool_error) \<Rightarrow> ConnInfo list \<Rightarrow> pool_error list" where
  "close_errors cl wrap cs = List.map_filter (\<lambda>c. map_option wrap (cl (conn c))) cs"

definition last_error :: "pool_error list \<Rightarrow> unit result" where
  "last_error es = (if es = [] then Ok () else Err (last es))"

definition is_PoolExhausted :: "'a result \<Rightarrow> bool" where
  "is_PoolExhausted r = (case r of Err (PoolExhausted a n) \<Rightarrow> True | _ \<Rightarrow> False)"

definition is_Panic :: "'a result \<Rightarrow> bool" where
  "is_Panic r = (case r of Panic x \<Rightarrow> True | _ \<Rightarrow> False)"

text \<open>\<^verbatim>\<open>GetConn\<close> gets past the map when the address is there, or when it can be put
  there: \<^verbatim>\<open>make\<close> accepts the capacity \<open>MinConnsPerAddr\<close> and the map is not nil.\<close>

definition acquirable :: "int \<Rightarrow> ConnPool \<Rightarrow> string \<Rightarrow> bool" where
  "acquirable maxCap p a \<longleftrightarrow>
     lookup_pool p a \<noteq> None \<or> (pools p \<noteq> None \<and> make_ok maxCap (MinConnsPerAddr (config p)))"

subsection \<open>Example values\<close>

definition ex_entry :: "handle \<Rightarrow> int32 \<Rightarrow> ConnInfo" where
  "ex_entry h l = \<lparr>conn = h, lastUsed = 0, createdAt = 0, state = Ready, load = l, isStream = False\<rparr>"

definition ex_pool :: "PoolConfig \<Rightarrow> ConnInfo list \<Rightarrow> ConnPool" where
  "ex_pool cfg cs =
     \<lparr>pools = Some [(''a'', \<lparr>address = ''a'', unaryConns = cs, streamConns = []\<rparr>)],
      config = cfg, stopped = False, closeLog = []\<rparr>"

definition ex_clock :: "nat \<Rightarrow> clock" where
  "ex_clock s = \<lparr>seed = s, now1 = 5, now2 = 6\<rparr>"

text \<open>The limit of \<^verbatim>\<open>make\<close> for 8-byte elements where the heap has 48 address bits.\<close>

definition ex_maxCap :: int where
  "ex_maxCap = 2 ^ 45"

definition ex_gs :: "handle \<Rightarrow> conn_state" where
  "ex_gs h = (if h = 3 then TransientFailure else Ready)"

section \<open>Lemmas\<close>

subsection \<open>The scan of GetConn\<close>

declare scan.simps [simp del] sweep_conns.simps [simp del]

lemma make_ok_ex [simp]: "make_ok ex_maxCap 2"
  by (simp add: make_ok_def ex_maxCap_def)

lemma scan_None_iff:
  "scan cfg gs cs s i = None \<longleftrightarrow>
     (\<forall>j. i \<le> j \<and> j < length cs \<longrightarrow> \<not> eligible cfg gs (cs ! ((s + j) mod length cs)))"
proof (induction cfg gs cs s i rule: scan.induct)
  case (1 cfg gs conns startIndex i)
  show ?case
  proof (cases "i < length conns")
    case False
    then show ?thesis by (auto simp: scan.simps [of cfg gs conns startIndex i])
  next
    case True
    show ?thesis
    proof (cases "eligible cfg gs (conns ! ((startIndex + i) mod length conns))")
      case e: True
      with True show ?thesis
        by (auto simp: scan.simps [of cfg gs conns startIndex i])
    next
      case e: False
      have "scan cfg gs conns startIndex i = scan cfg gs conns startIndex (i + 1)"
        using True e by (simp add: scan.simps [of cfg gs conns startIndex i])
      moreover have "(\<forall>j. i \<le> j \<and> j < length conns \<longrightarrow> \<not> eligible cfg gs (conns ! ((startIndex + j) mod length conns)))
         \<longleftrightarrow> (\<forall>j. i + 1 \<le> j \<and> j < length conns \<longrightarrow> \<not> eligible cfg gs (conns ! ((startIndex + j) mod length conns)))"
        using e by (metis Suc_eq_plus1 Suc_leI le_eq_less_or_eq Suc_leD)
      ultimately show ?thesis using "1.IH" [OF True refl e] by simp
    qed
  qed
qed

lemma scan_Some:
  "scan cfg gs cs s i = Some idx \<Longrightarrow>
     \<exists>k. i \<le> k \<and> k < length cs \<and> idx = (s + k) mod length cs \<and> eligible cfg gs (cs ! idx) \<and>
       (\<forall>j. i \<le> j \<and> j < k \<longrightarrow> \<not> eligible cfg gs (cs ! ((s + j) mod length cs)))"
proof (induction cfg gs cs s i rule: scan.induct)
  case (1 cfg gs conns startIndex i)
  show ?case
  proof (cases "i < length conns")
    case False
    with "1.prems" show ?thesis by (simp add: scan.simps [of cfg gs conns startIndex i])
  next
    case True
    show ?thesis
    proof (cases "eligible cfg gs (conns ! ((startIndex + i) mod length conns))")
      case e: True
      with True "1.prems" have "idx = (startIndex + i) mod length conns"
        by (simp add: scan.simps [of cfg gs conns startIndex i])
      with e True show ?thesis by (intro exI [of _ i]) auto
    next
      case e: False
      have "scan cfg gs conns startIndex (i + 1) = Some idx"
        using True e "1.prems" by (simp add: scan.simps [of cfg gs conns startIndex i])
      from "1.IH" [OF True refl e this] obtain k where k:
        "i + 1 \<le> k" "k < length conns" "idx = (startIndex + k) mod length conns"
        "eligible cfg gs (conns ! idx)"
        "\<forall>j. i + 1 \<le> j \<and> j < k \<longrightarrow> \<not> eligible cfg gs (conns ! ((startIndex + j) mod length conns))"
        by blast
      have "\<forall>j. i \<le> j \<and> j < k \<longrightarrow> \<not> eligible cfg gs (conns ! ((startIndex + j) mod length conns))"
        using k(5) e by (metis Suc_eq_plus1 Suc_leI le_eq_less_or_eq)
      with k show ?thesis by (intro exI [of _ k]) auto
    qed
  qed
qed

lemma circle_onto:
  assumes "idx < n"
  shows "\<exists>j<n. (s + j) mod n = (idx::nat)"
proof -
  let ?j = "(idx + (n - s mod n)) mod n"
  have n: "0 < n" using assms by simp
  have "s mod n < n" using n by simp
  have "(s + ?j) mod n = (s + (idx + (n - s mod n))) mod n"
    by (simp add: mod_add_right_eq)
  also have "s + (idx + (n - s mod n)) = idx + (s div n + 1) * n"
  proof -
    have "s = (s div n) * n + s mod n" by simp
    then have "s + (n - s mod n) = (s div n) * n + n"
      using \<open>s mod n < n\<close> by linarith
    then show ?thesis by (simp add: algebra_simps)
  qed
  also have "(idx + (s div n + 1) * n) mod n = idx"
    using assms by (simp only: mod_mult_self1 mod_less)
  finally show ?thesis using n by (intro exI [of _ ?j]) simp
qed

lemma full_circle:
  assumes "0 < length cs"
  shows "(\<forall>j<length cs. \<not> P (cs ! ((s + j) mod length cs))) \<longleftrightarrow> (\<forall>c\<in>set cs. \<not> P c)"
proof
  assume a: "\<forall>j<length cs. \<not> P (cs ! ((s + j) mod length cs))"
  show "\<forall>c\<in>set cs. \<not> P c"
  proof
    fix c assume "c \<in> set cs"
    then obtain idx where idx: "idx < length cs" "cs ! idx = c" by (auto simp: in_set_conv_nth)
    from circle_onto [OF idx(1), of s] obtain j where "j < length cs" "(s + j) mod length cs = idx" by blast
    with a idx show "\<not> P c" by auto
  qed
next
  assume "\<forall>c\<in>set cs. \<not> P c"
  then show "\<forall>j<length cs. \<not> P (cs ! ((s + j) mod length cs))"
    using assms by simp
qed

subsection \<open>GetConn on the collection of its mode\<close>

lemma conns_of_set_conns:
  "conns_of m' (set_conns m cs pool) = (if m' = m then cs else conns_of m' pool)"
  by (auto simp: conns_of_def set_conns_def)

lemma pool_list_update [simp]: "pool_list (p\<lparr>pools := Some ps\<rparr>) = ps"
  by (simp add: pool_list_def)

lemma lookup_pool_Some_pools: "lookup_pool p a = Some pool \<Longrightarrow> pools p = Some (pool_list p)"
  by (cases "pools p") (auto simp: lookup_pool_def pool_list_def)

lemma GetConn_unfold:
  "acquirable mc p a \<Longrightarrow>
   GetConn mc p gs clk dial a m =
     (let pool = (case lookup_pool p a of None \<Rightarrow> \<lparr>address = a, unaryConns = [], streamConns = []\<rparr> | Some q \<Rightarrow> q);
          rc = select_or_create (config p) gs clk dial a m (conns_of m pool)
      in (fst rc, p\<lparr>pools := Some (AList.update a (set_conns m (snd rc) pool) (pool_list p))\<rparr>))"
  by (cases "pools p")
     (auto simp: GetConn_def GetConn_locked_def acquirable_def Let_def pool_list_def lookup_pool_def
           split: option.splits prod.splits)

lemma GetConn_panic:
  "\<not> acquirable mc p a \<Longrightarrow>
   GetConn mc p gs clk dial a m =
     (Panic (if make_ok mc (MinConnsPerAddr (config p)) then NilMapWrite else MakeSliceCap), p)"
  by (auto simp: GetConn_def acquirable_def split: option.splits)

lemma GetConn_make_refused:
  "lookup_pool p a = None \<Longrightarrow> \<not> make_ok mc (MinConnsPerAddr (config p)) \<Longrightarrow>
   GetConn mc p gs clk dial a m = (Panic MakeSliceCap, p)"
  by (simp add: GetConn_def)

lemma GetConn_make_refused_example:
  "GetConn ex_maxCap (NewConnPool (Some (DefaultPoolConfig\<lparr>MinConnsPerAddr := 2 ^ 60\<rparr>)))
      ex_gs (ex_clock 0) (Inr 1) ''a'' False =
     (Panic MakeSliceCap, NewConnPool (Some (DefaultPoolConfig\<lparr>MinConnsPerAddr := 2 ^ 60\<rparr>)))"
  by (rule GetConn_make_refused)
     (simp_all add: lookup_pool_def pool_list_def NewConnPool_def make_ok_def ex_maxCap_def)

lemma entries_empty_pool:
  "conns_of m (case lookup_pool p a of None \<Rightarrow> \<lparr>address = a, unaryConns = [], streamConns = []\<rparr> | Some q \<Rightarrow> q)
     = entries p a m"
  by (auto simp: entries_def conns_of_def split: option.splits)

lemma GetConn_fst:
  "acquirable mc p a \<Longrightarrow>
   fst (GetConn mc p gs clk dial a m) = fst (select_or_create (config p) gs clk dial a m (entries p a m))"
  by (simp add: GetConn_unfold Let_def entries_empty_pool)

lemma GetConn_entries:
  "acquirable mc p a \<Longrightarrow>
   entries (snd (GetConn mc p gs clk dial a m)) a' m' =
     (if a' = a \<and> m' = m then snd (select_or_create (config p) gs clk dial a m (entries p a m))
      else entries p a' m')"
  apply (simp add: GetConn_unfold Let_def)
  apply (simp add: entries_def lookup_pool_def update_conv' conns_of_set_conns entries_empty_pool [unfolded entries_def lookup_pool_def])
  apply (auto simp: conns_of_def split: option.splits)
  done

lemma GetConn_config [simp]: "config (snd (GetConn mc p gs clk dial a m)) = config p"
  by (auto simp: GetConn_def Let_def split: option.splits prod.splits)

lemma GetConn_closeLog [simp]: "closeLog (snd (GetConn mc p gs clk dial a m)) = closeLog p"
  by (auto simp: GetConn_def Let_def split: option.splits prod.splits)

lemma soc_scan_None:
  "(if length cs > 0 then scan cfg gs cs (s mod length cs) 0 else None) = None
     \<longleftrightarrow> (\<forall>c\<in>set cs. \<not> eligible cfg gs c)"
proof (cases "cs = []")
  case True then show ?thesis by simp
next
  case False
  then have n: "0 < length cs" by simp
  have "scan cfg gs cs (s mod length cs) 0 = None \<longleftrightarrow>
      (\<forall>j<length cs. \<not> eligible cfg gs (cs ! ((s mod length cs + j) mod length cs)))"
    by (simp add: scan_None_iff)
  also have "\<dots> \<longleftrightarrow> (\<forall>c\<in>set cs. \<not> eligible cfg gs c)"
    by (rule full_circle [OF n])
  finally show ?thesis using n by simp
qed

lemma soc_none:
  assumes "\<forall>c\<in>set cs. \<not> eligible cfg gs c"
  shows "select_or_create cfg gs clk dial a m cs =
     (if int (length cs) < MaxConnsPerAddr cfg then
        (case dial of Inl e \<Rightarrow> (Err (DialFailed e), cs)
         | Inr h \<Rightarrow> (Ok h, cs @ [\<lparr>conn = h, lastUsed = now1 clk, createdAt = now2 clk, state = Ready,
                            load = 1, isStream = m\<rparr>]))
      else (Err (PoolExhausted a (MaxConnsPerAddr cfg)), cs))"
proof -
  have "(if length cs > 0 then scan cfg gs cs (seed clk mod length cs) 0 else None) = None"
    using assms by (simp only: soc_scan_None) 
  then show ?thesis unfolding select_or_create_def by (simp only: option.case)
qed

lemma soc_some:
  assumes "\<exists>c\<in>set cs. eligible cfg gs c"
  shows "\<exists>k<length cs.
      (\<forall>j<k. \<not> eligible cfg gs (cs ! ((seed clk + j) mod length cs))) \<and>
      eligible cfg gs (cs ! ((seed clk + k) mod length cs)) \<and>
      select_or_create cfg gs clk dial a m cs =
        (Ok (conn (cs ! ((seed clk + k) mod length cs))),
         cs[(seed clk + k) mod length cs :=
              (cs ! ((seed clk + k) mod length cs))\<lparr>lastUsed := now1 clk,
                 load := load (cs ! ((seed clk + k) mod length cs)) + 1\<rparr>])"
proof -
  from assms have n: "0 < length cs" by (cases cs) auto
  have "(if length cs > 0 then scan cfg gs cs (seed clk mod length cs) 0 else None) \<noteq> None"
    using assms by (simp only: soc_scan_None) simp
  then obtain idx where idx: "scan cfg gs cs (seed clk mod length cs) 0 = Some idx"
    using n by auto
  from scan_Some [OF idx] obtain k where k: "k < length cs"
    "idx = (seed clk mod length cs + k) mod length cs" "eligible cfg gs (cs ! idx)"
    "\<forall>j. j < k \<longrightarrow> \<not> eligible cfg gs (cs ! ((seed clk mod length cs + j) mod length cs))"
    by auto
  have idx': "idx = (seed clk + k) mod length cs" using k(2) by (simp add: mod_add_left_eq)
  have "select_or_create cfg gs clk dial a m cs =
      (Ok (conn (cs ! idx)), cs[idx := (cs ! idx)\<lparr>lastUsed := now1 clk, load := load (cs ! idx) + 1\<rparr>])"
    using idx n by (simp add: select_or_create_def Let_def)
  with k idx' show ?thesis
    by (intro exI [of _ k]) (simp add: mod_add_left_eq)
qed

subsection \<open>The sweep\<close>

lemma mset_swap_remove:
  assumes "i < length cs"
  shows "mset (butlast (cs[i := last cs])) = mset cs - {#cs ! i#}"
proof -
  from assms have ne: "cs \<noteq> []" by auto
  then have split: "cs = butlast cs @ [last cs]" by simp
  have ms: "mset cs = mset (butlast cs) + {#last cs#}"
    by (subst split) (simp only: mset_append mset.simps)
  show ?thesis
  proof (cases "i = length cs - 1")
    case True
    then have "cs ! i = last cs" using ne by (simp add: last_conv_nth)
    then have "cs[i := last cs] = cs" by (metis list_update_id)
    then have "mset (butlast (cs[i := last cs])) = mset (butlast cs)" by (simp only:)
    moreover have "mset cs - {#cs ! i#} = mset (butlast cs)"
      using ms \<open>cs ! i = last cs\<close> by simp
    ultimately show ?thesis by (simp only:)
  next
    case False
    with assms have i: "i < length (butlast cs)" by simp
    have "butlast (cs[i := last cs]) = (butlast cs)[i := last cs]"
      using False by (simp add: butlast_list_update)
    moreover have "mset ((butlast cs)[i := last cs]) = add_mset (last cs) (mset (butlast cs) - {#butlast cs ! i#})"
      using i by (simp add: mset_update)
    moreover have "butlast cs ! i = cs ! i" using i by (simp add: nth_butlast)
    moreover have "cs ! i \<in># mset (butlast cs)" using i \<open>butlast cs ! i = cs ! i\<close>
      by (metis nth_mem_mset)
    ultimately show ?thesis using ms by simp
  qed
qed

lemma take_swap_remove:
  assumes "i < length cs"
  shows "take i (butlast (cs[i := last cs])) = take i cs"
proof -
  have "min i (length cs - 1) = i" using assms by simp
  then show ?thesis by (simp add: butlast_conv_take)
qed

lemma mset_drop_swap_remove:
  assumes "i < length cs"
  shows "mset (drop i (butlast (cs[i := last cs]))) = mset (drop (Suc i) cs)"
proof -
  let ?cs' = "butlast (cs[i := last cs])"
  have "mset (take i ?cs') + mset (drop i ?cs') = mset ?cs'"
    by (metis append_take_drop_id mset_append)
  moreover have "mset cs = mset (take i cs) + add_mset (cs ! i) (mset (drop (Suc i) cs))"
    using assms by (metis id_take_nth_drop mset.simps(2) mset_append)
  ultimately show ?thesis
    using mset_swap_remove [OF assms] take_swap_remove [OF assms] by simp
qed

lemma sweep_conns_mset:
  assumes "i \<le> length cs"
  shows "mset (fst (sweep_conns cfg gs now i cs log)) =
           mset (take i cs) + filter_mset (\<lambda>c. \<not> evict cfg gs now c) (mset (drop i cs)) \<and>
         mset (snd (sweep_conns cfg gs now i cs log)) =
           mset log + image_mset conn (filter_mset (evict cfg gs now) (mset (drop i cs)))"
  using assms
proof (induction cfg gs now i cs log rule: sweep_conns.induct)
  case (1 cfg gs now i conns log)
  show ?case
  proof (cases "i < length conns")
    case False
    then have "sweep_conns cfg gs now i conns log = (conns, log)"
      by (simp add: sweep_conns.simps [of cfg gs now i conns log])
    with False "1.prems" show ?thesis by simp
  next
    case True
    let ?c = "conns ! i"
    let ?cs' = "butlast (conns[i := last conns])"
    have dropi: "drop i conns = ?c # drop (Suc i) conns"
      using True by (simp add: Cons_nth_drop_Suc)
    show ?thesis
    proof (cases "evict cfg gs now ?c")
      case ev: True
      have eq: "sweep_conns cfg gs now i conns log = sweep_conns cfg gs now i ?cs' (log @ [conn ?c])"
        using True ev by (auto simp: sweep_conns.simps [of cfg gs now i conns log] evict_def Let_def)
      have len: "i \<le> length ?cs'" using True by simp
      have ih: "mset (fst (sweep_conns cfg gs now i ?cs' (log @ [conn ?c]))) =
           mset (take i ?cs') + filter_mset (\<lambda>c. \<not> evict cfg gs now c) (mset (drop i ?cs')) \<and>
         mset (snd (sweep_conns cfg gs now i ?cs' (log @ [conn ?c]))) =
           mset (log @ [conn ?c]) + image_mset conn (filter_mset (evict cfg gs now) (mset (drop i ?cs')))"
      proof (cases "failed gs ?c")
        case True
        from "1.IH"(1) [OF \<open>i < length conns\<close> refl True len] show ?thesis .
      next
        case False
        with ev have "expired cfg now ?c" by (simp add: evict_def)
        from "1.IH"(2) [OF \<open>i < length conns\<close> refl False this len] show ?thesis .
      qed
      show ?thesis
        unfolding eq using ih ev
        by (simp add: take_swap_remove [OF True] mset_drop_swap_remove [OF True] dropi)
    next
      case ev: False
      then have nf: "\<not> failed gs ?c" and ne: "\<not> expired cfg now ?c" by (simp_all add: evict_def)
      have eq: "sweep_conns cfg gs now i conns log = sweep_conns cfg gs now (i + 1) conns log"
        using True nf ne by (simp add: sweep_conns.simps [of cfg gs now i conns log] Let_def)
      have len: "i + 1 \<le> length conns" using True by simp
      from "1.IH"(3) [OF \<open>i < length conns\<close> refl nf ne len]
      show ?thesis
        unfolding eq using ev True by (simp add: dropi take_Suc_conv_app_nth)
    qed
  qed
qed

lemma sweep_conns_0:
  "mset (fst (sweep_conns cfg gs now 0 cs log)) = filter_mset (\<lambda>c. \<not> evict cfg gs now c) (mset cs)"
  "mset (snd (sweep_conns cfg gs now 0 cs log)) = mset log + image_mset conn (filter_mset (evict cfg gs now) (mset cs))"
  using sweep_conns_mset [of 0 cs cfg gs now log] by simp_all

lemma sweep_pool_fst:
  "mset (unaryConns (fst (sweep_pool cfg gs now pool log))) = filter_mset (\<lambda>c. \<not> evict cfg gs now c) (mset (unaryConns pool))"
  "mset (streamConns (fst (sweep_pool cfg gs now pool log))) = filter_mset (\<lambda>c. \<not> evict cfg gs now c) (mset (streamConns pool))"
  "address (fst (sweep_pool cfg gs now pool log)) = address pool"
  by (simp_all add: sweep_pool_def split_beta Let_def sweep_conns_0)

lemma sweep_pool_snd:
  "mset (snd (sweep_pool cfg gs now pool log)) =
     mset log + image_mset conn (filter_mset (evict cfg gs now) (mset (unaryConns pool @ streamConns pool)))"
  by (simp add: sweep_pool_def split_beta Let_def sweep_conns_0)

lemma sweep_pools_keys: "map fst (fst (sweep_pools cfg gs nowf ps log)) = map fst ps"
  by (induction ps arbitrary: log) (auto simp: split_beta Let_def)

lemma sweep_pools_lookup:
  "map_of (fst (sweep_pools cfg gs nowf ps log)) a = Some pool' \<Longrightarrow>
   \<exists>pool. map_of ps a = Some pool \<and> address pool' = address pool \<and>
     mset (unaryConns pool') = filter_mset (\<lambda>c. \<not> evict cfg gs (nowf a) c) (mset (unaryConns pool)) \<and>
     mset (streamConns pool') = filter_mset (\<lambda>c. \<not> evict cfg gs (nowf a) c) (mset (streamConns pool))"
proof (induction ps arbitrary: log)
  case Nil
  then show ?case by simp
next
  case (Cons x ps)
  obtain b q where x: "x = (b, q)" by (cases x)
  show ?case
  proof (cases "a = b")
    case True
    with Cons.prems x show ?thesis
      by (auto simp: split_beta Let_def sweep_pool_fst)
  next
    case False
    with Cons.prems x have "map_of (fst (sweep_pools cfg gs nowf ps (snd (sweep_pool cfg gs (nowf b) q log)))) a = Some pool'"
      by (simp add: split_beta Let_def)
    from Cons.IH [OF this] False x show ?thesis by simp
  qed
qed

lemma sweep_pools_lookup_None:
  "map_of (fst (sweep_pools cfg gs nowf ps log)) a = None \<longleftrightarrow> map_of ps a = None"
  by (metis sweep_pools_keys map_of_eq_None_iff set_map)

lemma sweep_pools_log:
  "mset (snd (sweep_pools cfg gs nowf ps log)) = mset log + mset (evicted_handles cfg gs nowf ps)"
  by (induction ps arbitrary: log)
     (auto simp: split_beta Let_def evicted_handles_def sweep_pool_snd)

subsection \<open>ReleaseConn, loads and the map\<close>

lemma release_in_None: "release_in h cs = None \<longleftrightarrow> h \<notin> conn ` set cs"
  by (induction cs) auto

lemma release_in_Some: "release_in h cs = Some cs' \<Longrightarrow> cs' = dec_first h cs \<and> h \<in> conn ` set cs"
  by (induction cs arbitrary: cs') (auto split: if_splits)

lemma dec_first_id: "h \<notin> conn ` set cs \<Longrightarrow> dec_first h cs = cs"
  by (induction cs) auto

lemma dec_first_append:
  "dec_first h (xs @ ys) = (if h \<in> conn ` set xs then dec_first h xs @ ys else xs @ dec_first h ys)"
  by (induction xs) auto

lemma map_conn_dec_first [simp]: "map conn (dec_first h cs) = map conn cs"
  by (induction cs) auto

lemma length_dec_first [simp]: "length (dec_first h cs) = length cs"
  by (induction cs) auto

lemma release_pools_all_entries: "all_entries (release_pools h ps) = dec_first h (all_entries ps)"
proof (induction ps)
  case Nil
  then show ?case by (simp add: all_entries_def)
next
  case (Cons x ps)
  obtain a pool where x: "x = (a, pool)" by (cases x)
  show ?case
  proof (cases "release_in h (unaryConns pool)")
    case (Some cs)
    from release_in_Some [OF this] x Some show ?thesis
      by (simp add: all_entries_def dec_first_append)
  next
    case None
    then have nu: "h \<notin> conn ` set (unaryConns pool)" by (simp add: release_in_None)
    show ?thesis
    proof (cases "release_in h (streamConns pool)")
      case (Some cs)
      from release_in_Some [OF this] x None Some nu show ?thesis
        by (simp add: all_entries_def dec_first_append)
    next
      case ns: None
      then have "h \<notin> conn ` set (streamConns pool)" by (simp add: release_in_None)
      with nu x None ns Cons.IH show ?thesis
        by (simp add: all_entries_def dec_first_append)
    qed
  qed
qed

lemma release_pools_id: "h \<notin> conn ` set (all_entries ps) \<Longrightarrow> release_pools h ps = ps"
proof (induction ps)
  case Nil
  then show ?case by simp
next
  case (Cons x ps)
  obtain a pool where x: "x = (a, pool)" by (cases x)
  from Cons.prems x have "release_in h (unaryConns pool) = None" "release_in h (streamConns pool) = None"
    "h \<notin> conn ` set (all_entries ps)"
    by (auto simp: release_in_None all_entries_def)
  with Cons.IH x show ?case by simp
qed

lemma release_pools_shape: "map pool_shape (release_pools h ps) = map pool_shape ps"
proof (induction ps)
  case Nil
  then show ?case by simp
next
  case (Cons x ps)
  obtain a pool where x: "x = (a, pool)" by (cases x)
  show ?case using Cons.IH x
    by (auto simp: pool_shape_def split: option.splits dest!: release_in_Some)
qed

lemma release_pools_lookup:
  "map_option (\<lambda>pool. (length (unaryConns pool), length (streamConns pool))) (map_of (release_pools h ps) a)
     = map_option (\<lambda>pool. (length (unaryConns pool), length (streamConns pool))) (map_of ps a)"
proof (induction ps)
  case Nil
  then show ?case by simp
next
  case (Cons x ps)
  obtain b pool where x: "x = (b, pool)" by (cases x)
  show ?case using Cons.IH x
    by (auto split: option.splits dest!: release_in_Some)
qed

lemma release_pools_members:
  "(a, pool') \<in> set (release_pools h ps) \<Longrightarrow>
     \<exists>pool. (a, pool) \<in> set ps \<and> length (unaryConns pool') = length (unaryConns pool) \<and>
        length (streamConns pool') = length (streamConns pool)"
proof (induction ps)
  case Nil
  then show ?case by simp
next
  case (Cons x ps)
  obtain b pool where x: "x = (b, pool)" by (cases x)
  show ?case using Cons x
    by (fastforce split: option.splits dest!: release_in_Some)
qed

lemma sint_inc:
  fixes x m :: int32
  assumes "sint x < sint m"
  shows "sint (x + 1) = sint x + 1"
proof -
  have "sint m < 2 ^ 31" using sint_lt [of m] by simp
  moreover have "- (2 ^ 31) \<le> sint x" using sint_ge [of x] by simp
  ultimately have "- (2 ^ 31) \<le> sint x + 1" "sint x + 1 < 2 ^ 31" using assms by simp_all
  then have "signed_take_bit 31 (sint x + 1) = sint x + 1"
    by (rule signed_take_bit_int_eq_self)
  then show ?thesis by (simp add: sint_word_add)
qed

lemma sint_dec:
  fixes x :: int32
  assumes "0 < sint x"
  shows "sint (x - 1) = sint x - 1"
proof -
  have "sint x < 2 ^ 31" using sint_lt [of x] by simp
  with assms have "- (2 ^ 31) \<le> sint x - 1" "sint x - 1 < 2 ^ 31" by simp_all
  then have "signed_take_bit 31 (sint x - 1) = sint x - 1"
    by (rule signed_take_bit_int_eq_self)
  then show ?thesis by (simp add: sint_word_diff)
qed

lemma set_update_subset: "x \<in> set (AList.update k v ps) \<Longrightarrow> x = (k, v) \<or> x \<in> set ps"
  by (induction ps) (auto split: if_splits)

lemma set_delete_subset: "x \<in> set (AList.delete k ps) \<Longrightarrow> x \<in> set ps"
  by (induction ps) (auto split: if_splits)

section \<open>The claims\<close>

subsection \<open>Selection and creation\<close>

lemma entries_nonempty_acquirable: "entries p a m \<noteq> [] \<Longrightarrow> acquirable mc p a"
  by (auto simp: entries_def acquirable_def split: option.splits)

text \<open>
  Claim C3. When some entry of the mode's collection is eligible (handle \<open>Ready\<close>, load below
  \<open>MaxLoadPerConn\<close>), \<^verbatim>\<open>GetConn\<close> goes round the collection once from the index
  \<open>seed mod length\<close>, returns the handle of the first eligible entry it meets, stamps that
  entry's \<open>lastUsed\<close> and adds one to its load (without overflow). When no entry is eligible,
  the call gets past the map (for a new address: the map is not nil and \<^verbatim>\<open>make\<close> accepts the
  capacity \<open>MinConnsPerAddr\<close>; otherwise it panics before any dial), the collection is shorter
  than \<open>MaxConnsPerAddr\<close> and the dial succeeds, it returns the new handle and appends a fresh
  entry with load 1.
\<close>

theorem GetConn_select_or_create:
  "((\<exists>c\<in>set (entries p a m). eligible (config p) gs c) \<longrightarrow>
      (\<exists>k<length (entries p a m).
         (\<forall>j<k. \<not> eligible (config p) gs (entries p a m ! ((seed clk + j) mod length (entries p a m)))) \<and>
         (let index = (seed clk + k) mod length (entries p a m); c = entries p a m ! index in
            eligible (config p) gs c \<and>
            fst (GetConn mc p gs clk dial a m) = Ok (conn c) \<and>
            entries (snd (GetConn mc p gs clk dial a m)) a m =
              (entries p a m)[index := c\<lparr>lastUsed := now1 clk, load := load c + 1\<rparr>] \<and>
            sint (load c + 1) = sint (load c) + 1))) \<and>
   (acquirable mc p a \<and> (\<forall>c\<in>set (entries p a m). \<not> eligible (config p) gs c) \<and>
      int (length (entries p a m)) < MaxConnsPerAddr (config p) \<and> dial = Inr h \<longrightarrow>
      fst (GetConn mc p gs clk dial a m) = Ok h \<and>
      entries (snd (GetConn mc p gs clk dial a m)) a m =
        entries p a m @ [\<lparr>conn = h, lastUsed = now1 clk, createdAt = now2 clk, state = Ready,
                           load = 1, isStream = m\<rparr>])"
proof (intro conjI impI)
  assume ex: "\<exists>c\<in>set (entries p a m). eligible (config p) gs c"
  then have "entries p a m \<noteq> []" by auto
  then have acq: "acquirable mc p a" by (rule entries_nonempty_acquirable)
  from soc_some [OF ex, of clk dial a m] obtain k where k: "k < length (entries p a m)"
    "\<forall>j<k. \<not> eligible (config p) gs (entries p a m ! ((seed clk + j) mod length (entries p a m)))"
    "eligible (config p) gs (entries p a m ! ((seed clk + k) mod length (entries p a m)))"
    "select_or_create (config p) gs clk dial a m (entries p a m) =
        (Ok (conn (entries p a m ! ((seed clk + k) mod length (entries p a m)))),
         (entries p a m)[(seed clk + k) mod length (entries p a m) :=
              (entries p a m ! ((seed clk + k) mod length (entries p a m)))\<lparr>lastUsed := now1 clk,
                 load := load (entries p a m ! ((seed clk + k) mod length (entries p a m))) + 1\<rparr>])"
    by blast
  have "sint (load (entries p a m ! ((seed clk + k) mod length (entries p a m))) + 1) =
      sint (load (entries p a m ! ((seed clk + k) mod length (entries p a m)))) + 1"
    using k(3) by (auto simp: eligible_def intro: sint_inc)
  with k show "\<exists>k<length (entries p a m).
         (\<forall>j<k. \<not> eligible (config p) gs (entries p a m ! ((seed clk + j) mod length (entries p a m)))) \<and>
         (let index = (seed clk + k) mod length (entries p a m); c = entries p a m ! index in
            eligible (config p) gs c \<and>
            fst (GetConn mc p gs clk dial a m) = Ok (conn c) \<and>
            entries (snd (GetConn mc p gs clk dial a m)) a m =
              (entries p a m)[index := c\<lparr>lastUsed := now1 clk, load := load c + 1\<rparr>] \<and>
            sint (load c + 1) = sint (load c) + 1)"
    by (intro exI [of _ k]) (simp add: Let_def GetConn_fst [OF acq] GetConn_entries [OF acq])
next
  assume a: "acquirable mc p a \<and> (\<forall>c\<in>set (entries p a m). \<not> eligible (config p) gs c) \<and>
      int (length (entries p a m)) < MaxConnsPerAddr (config p) \<and> dial = Inr h"
  then show "fst (GetConn mc p gs clk dial a m) = Ok h"
    by (simp add: GetConn_fst soc_none)
  from a show "entries (snd (GetConn mc p gs clk dial a m)) a m =
        entries p a m @ [\<lparr>conn = h, lastUsed = now1 clk, createdAt = now2 clk, state = Ready,
                           load = 1, isStream = m\<rparr>]"
    by (simp add: GetConn_entries soc_none)
qed

lemma ex_entries: "entries (ex_pool cfg cs) ''a'' False = cs"
  by (simp add: entries_def ex_pool_def lookup_pool_def pool_list_def conns_of_def)

lemma ex_entries_new: "entries (NewConnPool cfg) a m = []"
  by (simp add: entries_def NewConnPool_def lookup_pool_def pool_list_def)

theorem GetConn_select_or_create_witness:
  "fst (GetConn ex_maxCap (NewConnPool None) ex_gs (ex_clock 7) (Inr 1) ''a'' False) = Ok 1 \<and>
   entries (snd (GetConn ex_maxCap (NewConnPool None) ex_gs (ex_clock 7) (Inr 1) ''a'' False)) ''a'' False =
     [\<lparr>conn = 1, lastUsed = 5, createdAt = 6, state = Ready, load = 1, isStream = False\<rparr>] \<and>
   (\<exists>k<3. fst (GetConn ex_maxCap (ex_pool DefaultPoolConfig [ex_entry 1 100, ex_entry 2 0, ex_entry 3 0])
                  ex_gs (ex_clock 8) (Inr 4) ''a'' False)
             = Ok (conn ([ex_entry 1 100, ex_entry 2 0, ex_entry 3 0] ! ((8 + k) mod 3)))) \<and>
   fst (GetConn ex_maxCap (ex_pool DefaultPoolConfig [ex_entry 1 100, ex_entry 2 0, ex_entry 3 0])
          ex_gs (ex_clock 8) (Inr 4) ''a'' False) = Ok 2"
proof -
  let ?E = "[ex_entry 1 100, ex_entry 2 0, ex_entry 3 0]"
  let ?P = "ex_pool DefaultPoolConfig ?E"
  have E: "entries ?P ''a'' False = ?E" by (rule ex_entries)
  have acq: "acquirable ex_maxCap (NewConnPool None) ''a''"
    by (simp add: acquirable_def NewConnPool_def DefaultPoolConfig_def make_ok_def ex_maxCap_def)
  have cfg: "MaxConnsPerAddr (config (NewConnPool None)) = 10"
    by (simp add: NewConnPool_def DefaultPoolConfig_def)
  have part1: "fst (GetConn ex_maxCap (NewConnPool None) ex_gs (ex_clock 7) (Inr 1) ''a'' False) = Ok 1 \<and>
   entries (snd (GetConn ex_maxCap (NewConnPool None) ex_gs (ex_clock 7) (Inr 1) ''a'' False)) ''a'' False =
     [\<lparr>conn = 1, lastUsed = 5, createdAt = 6, state = Ready, load = 1, isStream = False\<rparr>]"
    using GetConn_select_or_create [where mc = ex_maxCap, of "NewConnPool None" "''a''" False ex_gs "ex_clock 7" "Inr 1" 1]
      acq cfg
    by (simp add: ex_entries_new ex_clock_def)
  have "\<exists>c\<in>set ?E. eligible DefaultPoolConfig ex_gs c"
    by (simp add: eligible_def ex_entry_def ex_gs_def DefaultPoolConfig_def)
  then have ex: "\<exists>c\<in>set (entries ?P ''a'' False). eligible (config ?P) ex_gs c"
    by (simp only: E) (simp add: ex_pool_def)
  from GetConn_select_or_create [where mc = ex_maxCap, of ?P "''a''" False ex_gs "ex_clock 8" "Inr 4" 4] ex
  obtain k where "k < length (entries ?P ''a'' False)"
    "fst (GetConn ex_maxCap ?P ex_gs (ex_clock 8) (Inr 4) ''a'' False) =
       Ok (conn (entries ?P ''a'' False ! ((seed (ex_clock 8) + k) mod length (entries ?P ''a'' False))))"
    unfolding Let_def by blast
  then have part2: "\<exists>k<3. fst (GetConn ex_maxCap ?P ex_gs (ex_clock 8) (Inr 4) ''a'' False)
             = Ok (conn (?E ! ((8 + k) mod 3)))"
    unfolding E by (intro exI [of _ k]) (simp add: ex_clock_def)
  have part3: "fst (GetConn ex_maxCap ?P ex_gs (ex_clock 8) (Inr 4) ''a'' False) = Ok 2"
    by (simp add: GetConn_def GetConn_locked_def select_or_create_def lookup_pool_def pool_list_def
          ex_pool_def conns_of_def ex_clock_def scan.simps eligible_def ex_entry_def ex_gs_def
          DefaultPoolConfig_def Let_def)
  from part1 part2 part3 show ?thesis by (simp only: simp_thms)
qed

subsection \<open>Exhaustion and the stamp of lastUsed\<close>

lemma is_PoolExhausted_simps [simp]:
  "is_PoolExhausted (Ok x) = False"
  "is_PoolExhausted (Panic y) = False"
  "is_PoolExhausted (Err (PoolExhausted a n)) = True"
  "is_PoolExhausted (Err (DialFailed e)) = False"
  by (simp_all add: is_PoolExhausted_def)

lemma soc_exhausted_iff:
  "is_PoolExhausted (fst (select_or_create cfg gs clk dial a m cs)) \<longleftrightarrow>
     MaxConnsPerAddr cfg \<le> int (length cs) \<and> (\<forall>c\<in>set cs. \<not> eligible cfg gs c)"
proof (cases "\<forall>c\<in>set cs. \<not> eligible cfg gs c")
  case True
  then show ?thesis by (auto simp: soc_none split: sum.splits)
next
  case False
  then have "\<exists>c\<in>set cs. eligible cfg gs c" by simp
  from soc_some [OF this, of clk dial a m] False show ?thesis by auto
qed

lemma soc_exhausted:
  "is_PoolExhausted (fst (select_or_create cfg gs clk dial a m cs)) \<Longrightarrow>
     select_or_create cfg gs clk dial a m cs = (Err (PoolExhausted a (MaxConnsPerAddr cfg)), cs)"
  by (simp add: soc_exhausted_iff soc_none)

lemma set_conns_same: "set_conns m (conns_of m pool) pool = pool"
  by (simp add: set_conns_def conns_of_def)

lemma GetConn_unchanged:
  assumes "lookup_pool p a = Some pool"
    and "snd (select_or_create (config p) gs clk dial a m (entries p a m)) = entries p a m"
  shows "snd (GetConn mc p gs clk dial a m) = p"
proof -
  have acq: "acquirable mc p a" using assms(1) by (simp add: acquirable_def)
  have e: "entries p a m = conns_of m pool" using assms(1) by (simp add: entries_def)
  have "AList.update a pool (pool_list p) = pool_list p"
    using assms(1) by (simp add: lookup_pool_def update_triv)
  moreover have "p\<lparr>pools := Some (pool_list p)\<rparr> = p"
    using lookup_pool_Some_pools [OF assms(1)] by simp
  ultimately show ?thesis
    using assms by (simp add: GetConn_unfold [OF acq] Let_def e set_conns_same)
qed

lemma sint_one32 [simp]: "sint (1 :: int32) = 1"
  by simp

text \<open>
  Claim C2. Once \<^verbatim>\<open>GetConn\<close> is past the map (the address is known, or the map is not nil
  and \<^verbatim>\<open>make\<close> accepts the capacity \<open>MinConnsPerAddr\<close>), it fails with \<open>PoolExhausted\<close> exactly when
  the mode's collection has reached \<open>MaxConnsPerAddr\<close> (its length is not below it, hence
  equal to it under the capacity bound) and holds no eligible entry; the failure changes no
  collection, and leaves the whole pool as it was when the address was known. With
  \<open>MaxConnsPerAddr = 1\<close> and \<open>MaxLoadPerConn = 1\<close>, after one successful \<^verbatim>\<open>GetConn\<close> the
  next one on the same address and mode fails with \<open>PoolExhausted\<close>, whatever the handle
  states, and changes nothing.
\<close>

theorem GetConn_PoolExhausted:
  "(acquirable mc p a \<longrightarrow>
      (is_PoolExhausted (fst (GetConn mc p gs clk dial a m)) \<longleftrightarrow>
         MaxConnsPerAddr (config p) \<le> int (length (entries p a m)) \<and>
         (\<forall>c\<in>set (entries p a m). \<not> eligible (config p) gs c)) \<and>
      (int (length (entries p a m)) \<le> MaxConnsPerAddr (config p) \<longrightarrow>
         (is_PoolExhausted (fst (GetConn mc p gs clk dial a m)) \<longleftrightarrow>
            int (length (entries p a m)) = MaxConnsPerAddr (config p) \<and>
            (\<forall>c\<in>set (entries p a m). \<not> eligible (config p) gs c)))) \<and>
   (is_PoolExhausted (fst (GetConn mc p gs clk dial a m)) \<longrightarrow>
      fst (GetConn mc p gs clk dial a m) = Err (PoolExhausted a (MaxConnsPerAddr (config p))) \<and>
      (\<forall>a' m'. entries (snd (GetConn mc p gs clk dial a m)) a' m' = entries p a' m') \<and>
      (lookup_pool p a \<noteq> None \<longrightarrow> snd (GetConn mc p gs clk dial a m) = p)) \<and>
   (MaxConnsPerAddr (config p) = 1 \<and> MaxLoadPerConn (config p) = 1 \<and>
    length (entries p a m) \<le> 1 \<and> (\<forall>c\<in>set (entries p a m). 0 \<le> sint (load c)) \<and>
    fst (GetConn mc p gs clk dial a m) = Ok h \<longrightarrow>
      GetConn mc (snd (GetConn mc p gs clk dial a m)) gs' clk' dial' a m =
        (Err (PoolExhausted a 1), snd (GetConn mc p gs clk dial a m)))"
proof -
  let ?E = "entries p a m"
  let ?r = "GetConn mc p gs clk dial a m"
  have iff: "is_PoolExhausted (fst (GetConn mc q gs0 clk0 dial0 a m)) \<longleftrightarrow>
         MaxConnsPerAddr (config q) \<le> int (length (entries q a m)) \<and>
         (\<forall>c\<in>set (entries q a m). \<not> eligible (config q) gs0 c)"
    if "acquirable mc q a" for q gs0 clk0 dial0
    using that by (simp add: GetConn_fst soc_exhausted_iff)
  have unchanged: "fst (GetConn mc q gs0 clk0 dial0 a m) = Err (PoolExhausted a (MaxConnsPerAddr (config q))) \<and>
      (\<forall>a' m'. entries (snd (GetConn mc q gs0 clk0 dial0 a m)) a' m' = entries q a' m') \<and>
      (lookup_pool q a \<noteq> None \<longrightarrow> snd (GetConn mc q gs0 clk0 dial0 a m) = q)"
    if ex: "is_PoolExhausted (fst (GetConn mc q gs0 clk0 dial0 a m))" for q gs0 clk0 dial0
  proof -
    have acq: "acquirable mc q a"
    proof (rule ccontr)
      assume "\<not> acquirable mc q a"
      from GetConn_panic [OF this] ex show False by simp
    qed
    from ex have soc: "select_or_create (config q) gs0 clk0 dial0 a m (entries q a m) =
        (Err (PoolExhausted a (MaxConnsPerAddr (config q))), entries q a m)"
      by (simp add: GetConn_fst [OF acq] soc_exhausted)
    have "lookup_pool q a \<noteq> None \<longrightarrow> snd (GetConn mc q gs0 clk0 dial0 a m) = q"
      using soc by (auto intro: GetConn_unchanged)
    then show ?thesis using soc by (simp add: GetConn_fst [OF acq] GetConn_entries [OF acq])
  qed
  have scenario: "GetConn mc (snd ?r) gs' clk' dial' a m = (Err (PoolExhausted a 1), snd ?r)"
    if cfg: "MaxConnsPerAddr (config p) = 1" "MaxLoadPerConn (config p) = 1"
      and len: "length ?E \<le> 1" and nonneg: "\<forall>c\<in>set ?E. 0 \<le> sint (load c)"
      and ok: "fst ?r = Ok h"
  proof -
    have acq: "acquirable mc p a"
    proof (rule ccontr)
      assume "\<not> acquirable mc p a"
      from GetConn_panic [OF this] ok show False by simp
    qed
    have E1: "entries (snd ?r) a m = snd (select_or_create (config p) gs clk dial a m ?E)"
      by (simp add: GetConn_entries [OF acq])
    have "\<exists>e. entries (snd ?r) a m = [e] \<and> sint (load e) = 1"
    proof (cases "\<exists>c\<in>set ?E. eligible (config p) gs c")
      case True
      then have "?E \<noteq> []" by auto
      with len obtain c where c: "?E = [c]" by (cases ?E) auto
      with True have "eligible (config p) gs c" by simp
      then have "sint (load c) < 1" by (simp add: eligible_def cfg)
      moreover have "0 \<le> sint (load c)" using nonneg c by simp
      moreover have "sint (load c + 1) = sint (load c) + 1"
        using \<open>eligible (config p) gs c\<close> by (auto simp: eligible_def intro: sint_inc)
      ultimately have one: "sint (load c + 1) = 1" by simp
      from soc_some [OF True, of clk dial a m] c
      have "snd (select_or_create (config p) gs clk dial a m ?E) =
           [c\<lparr>lastUsed := now1 clk, load := load c + 1\<rparr>]"
        by auto
      with one E1 show ?thesis by simp
    next
      case False
      then have none: "\<forall>c\<in>set ?E. \<not> eligible (config p) gs c" by simp
      have fstok: "fst (select_or_create (config p) gs clk dial a m ?E) = Ok h"
        using ok by (simp add: GetConn_fst [OF acq])
      have eq: "select_or_create (config p) gs clk dial a m ?E =
          (if int (length ?E) < 1 then
             (case dial of Inl e \<Rightarrow> (Err (DialFailed e), ?E)
              | Inr h' \<Rightarrow> (Ok h', ?E @ [\<lparr>conn = h', lastUsed = now1 clk, createdAt = now2 clk,
                    state = Ready, load = 1, isStream = m\<rparr>]))
           else (Err (PoolExhausted a 1), ?E))"
        using soc_none [OF none, of clk dial a m] by (simp only: cfg)
      from eq fstok have lt: "int (length ?E) < 1" by (auto split: if_splits)
      then have nil: "?E = []" by simp
      from eq fstok lt have "dial = Inr h" by (auto split: sum.splits)
      with eq lt nil have "snd (select_or_create (config p) gs clk dial a m ?E) =
          [\<lparr>conn = h, lastUsed = now1 clk, createdAt = now2 clk, state = Ready, load = 1, isStream = m\<rparr>]"
        by simp
      with E1 show ?thesis by simp
    qed
    then obtain e where e: "entries (snd ?r) a m = [e]" "sint (load e) = 1" by blast
    then have "entries (snd ?r) a m \<noteq> []" by simp
    then have acq1: "acquirable mc (snd ?r) a" by (rule entries_nonempty_acquirable)
    have "is_PoolExhausted (fst (GetConn mc (snd ?r) gs' clk' dial' a m))"
      using e by (simp add: iff [OF acq1] cfg eligible_def)
    from unchanged [OF this] e show ?thesis
      by (cases "GetConn mc (snd ?r) gs' clk' dial' a m")
         (auto simp: cfg entries_def split: option.splits)
  qed
  show ?thesis
    using iff [of p gs clk dial] unchanged [of p gs clk dial] scenario
    by (intro conjI impI) (simp_all only:, auto)
qed


theorem GetConn_PoolExhausted_witness:
  "fst (GetConn ex_maxCap (NewConnPool (Some (DefaultPoolConfig\<lparr>MaxConnsPerAddr := 1, MaxLoadPerConn := 1\<rparr>)))
          ex_gs (ex_clock 0) (Inr 1) ''a'' False) = Ok 1 \<and>
   GetConn ex_maxCap (snd (GetConn ex_maxCap (NewConnPool (Some (DefaultPoolConfig\<lparr>MaxConnsPerAddr := 1, MaxLoadPerConn := 1\<rparr>)))
                   ex_gs (ex_clock 0) (Inr 1) ''a'' False))
      ex_gs (ex_clock 1) (Inr 2) ''a'' False =
     (Err (PoolExhausted ''a'' 1),
      snd (GetConn ex_maxCap (NewConnPool (Some (DefaultPoolConfig\<lparr>MaxConnsPerAddr := 1, MaxLoadPerConn := 1\<rparr>)))
             ex_gs (ex_clock 0) (Inr 1) ''a'' False)) \<and>
   is_PoolExhausted (fst (GetConn ex_maxCap (ex_pool (DefaultPoolConfig\<lparr>MaxConnsPerAddr := 2\<rparr>)
                                     [ex_entry 1 100, ex_entry 3 0])
                            ex_gs (ex_clock 0) (Inr 2) ''a'' False)) \<and>
   \<not> is_PoolExhausted (fst (GetConn ex_maxCap (ex_pool (DefaultPoolConfig\<lparr>MaxConnsPerAddr := 2\<rparr>)
                                     [ex_entry 1 99, ex_entry 3 0])
                            ex_gs (ex_clock 0) (Inr 2) ''a'' False))"
proof -
  let ?p = "NewConnPool (Some (DefaultPoolConfig\<lparr>MaxConnsPerAddr := 1, MaxLoadPerConn := 1\<rparr>))"
  have cfg: "MaxConnsPerAddr (config ?p) = 1" "MaxLoadPerConn (config ?p) = 1"
    by (simp_all add: NewConnPool_def)
  have ok: "fst (GetConn ex_maxCap ?p ex_gs (ex_clock 0) (Inr 1) ''a'' False) = Ok 1"
    by (simp add: GetConn_def GetConn_locked_def select_or_create_def lookup_pool_def pool_list_def
          NewConnPool_def DefaultPoolConfig_def conns_of_def)
  have part1: "fst (GetConn ex_maxCap ?p ex_gs (ex_clock 0) (Inr 1) ''a'' False) = Ok 1 \<and>
      GetConn ex_maxCap (snd (GetConn ex_maxCap ?p ex_gs (ex_clock 0) (Inr 1) ''a'' False)) ex_gs (ex_clock 1) (Inr 2) ''a'' False =
        (Err (PoolExhausted ''a'' 1), snd (GetConn ex_maxCap ?p ex_gs (ex_clock 0) (Inr 1) ''a'' False))"
    using GetConn_PoolExhausted [where mc = ex_maxCap, of ?p "''a''" ex_gs "ex_clock 0" "Inr 1" False 1 ex_gs "ex_clock 1" "Inr 2"]
      cfg ok
    by (simp add: ex_entries_new)
  let ?q = "ex_pool (DefaultPoolConfig\<lparr>MaxConnsPerAddr := 2\<rparr>) [ex_entry 1 100, ex_entry 3 0]"
  let ?q' = "ex_pool (DefaultPoolConfig\<lparr>MaxConnsPerAddr := 2\<rparr>) [ex_entry 1 99, ex_entry 3 0]"
  have acq: "acquirable ex_maxCap ?q ''a''" "acquirable ex_maxCap ?q' ''a''"
    by (simp_all add: acquirable_def ex_pool_def DefaultPoolConfig_def)
  have len: "int (length (entries ?q ''a'' False)) \<le> MaxConnsPerAddr (config ?q)"
    "int (length (entries ?q' ''a'' False)) \<le> MaxConnsPerAddr (config ?q')"
    by (simp_all add: ex_entries) (simp_all add: ex_pool_def)
  have full: "int (length (entries ?q ''a'' False)) = MaxConnsPerAddr (config ?q)"
    by (simp add: ex_entries) (simp add: ex_pool_def)
  have none: "\<forall>c\<in>set (entries ?q ''a'' False). \<not> eligible (config ?q) ex_gs c"
    by (simp add: ex_entries) (simp add: ex_pool_def eligible_def ex_entry_def ex_gs_def DefaultPoolConfig_def)
  have some: "\<not> (\<forall>c\<in>set (entries ?q' ''a'' False). \<not> eligible (config ?q') ex_gs c)"
    by (simp add: ex_entries) (simp add: ex_pool_def eligible_def ex_entry_def ex_gs_def DefaultPoolConfig_def)
  from GetConn_PoolExhausted [where mc = ex_maxCap, of ?q "''a''" ex_gs "ex_clock 0" "Inr 2" False 1 ex_gs "ex_clock 1" "Inr 2"]
    acq(1) len(1) full none
  have part2: "is_PoolExhausted (fst (GetConn ex_maxCap ?q ex_gs (ex_clock 0) (Inr 2) ''a'' False))"
    by blast
  from GetConn_PoolExhausted [where mc = ex_maxCap, of ?q' "''a''" ex_gs "ex_clock 0" "Inr 2" False 1 ex_gs "ex_clock 1" "Inr 2"]
    acq(2) len(2) some
  have part3: "\<not> is_PoolExhausted (fst (GetConn ex_maxCap ?q' ex_gs (ex_clock 0) (Inr 2) ''a'' False))"
    by blast
  from part1 part2 part3 show ?thesis by (simp only: simp_thms)
qed

lemma Sub_not_idle:
  fixes d :: duration
  assumes "now \<le> t + sint d"
  shows "\<not> sint d < Sub now t"
proof -
  have "- (2 ^ 63) \<le> sint d" using sint_ge [of d] by simp
  moreover have "min (2 ^ 63 - 1) (now - t) \<le> sint d" using assms by simp
  ultimately show ?thesis by (simp add: Sub_def)
qed

lemma map_lastUsed_dec_first [simp]: "map lastUsed (dec_first h cs) = map lastUsed cs"
  by (induction cs) auto

lemma ReleaseConn_pool_list: "pool_list (ReleaseConn p h) = release_pools h (pool_list p)"
  by (cases "pools p") (simp_all add: ReleaseConn_def pool_list_def)

text \<open>
  Claim C10. A \<^verbatim>\<open>GetConn\<close> that returns handle \<open>h\<close> leaves, in the collection of its mode,
  an entry for \<open>h\<close> whose \<open>lastUsed\<close> is the clock reading \<open>now1\<close> of that call: an existing
  entry at index \<open>i\<close> gets the stamp together with the increment of its load, a new entry is
  created with it (its \<open>createdAt\<close> is the reading taken right after). For that entry the
  idle test of the sweep, \<^verbatim>\<open>now.Sub(lastUsed) > ConnMaxIdleTime\<close>, is false at every
  \<open>now\<close> up to \<open>now1 + ConnMaxIdleTime\<close>. \<^verbatim>\<open>ReleaseConn\<close> changes no \<open>lastUsed\<close>.
\<close>

theorem GetConn_stamps_lastUsed:
  "(fst (GetConn mc p gs clk dial a m) = Ok h \<longrightarrow>
      (\<exists>i<length (entries (snd (GetConn mc p gs clk dial a m)) a m).
         conn (entries (snd (GetConn mc p gs clk dial a m)) a m ! i) = h \<and>
         lastUsed (entries (snd (GetConn mc p gs clk dial a m)) a m ! i) = now1 clk \<and>
         (if i < length (entries p a m) then
            entries (snd (GetConn mc p gs clk dial a m)) a m =
              (entries p a m)[i := (entries p a m ! i)\<lparr>lastUsed := now1 clk,
                                      load := load (entries p a m ! i) + 1\<rparr>]
          else
            entries (snd (GetConn mc p gs clk dial a m)) a m =
              entries p a m @ [\<lparr>conn = h, lastUsed = now1 clk, createdAt = now2 clk,
                                 state = Ready, load = 1, isStream = m\<rparr>]) \<and>
         (\<forall>now. now \<le> now1 clk + sint (ConnMaxIdleTime (config p)) \<longrightarrow>
            \<not> sint (ConnMaxIdleTime (config p))
                < Sub now (lastUsed (entries (snd (GetConn mc p gs clk dial a m)) a m ! i))))) \<and>
   map lastUsed (all_entries (pool_list (ReleaseConn p h'))) = map lastUsed (all_entries (pool_list p))"
proof (intro conjI impI)
  let ?E = "entries p a m"
  let ?E' = "entries (snd (GetConn mc p gs clk dial a m)) a m"
  assume ok: "fst (GetConn mc p gs clk dial a m) = Ok h"
  have acq: "acquirable mc p a"
  proof (rule ccontr)
    assume "\<not> acquirable mc p a"
    from GetConn_panic [OF this] ok show False by simp
  qed
  have E': "?E' = snd (select_or_create (config p) gs clk dial a m ?E)"
    by (simp add: GetConn_entries [OF acq])
  have fstok: "fst (select_or_create (config p) gs clk dial a m ?E) = Ok h"
    using ok by (simp add: GetConn_fst [OF acq])
  have "\<exists>i<length ?E'. conn (?E' ! i) = h \<and> lastUsed (?E' ! i) = now1 clk \<and>
         (if i < length ?E then
            ?E' = ?E[i := (?E ! i)\<lparr>lastUsed := now1 clk, load := load (?E ! i) + 1\<rparr>]
          else
            ?E' = ?E @ [\<lparr>conn = h, lastUsed = now1 clk, createdAt = now2 clk,
                                 state = Ready, load = 1, isStream = m\<rparr>])"
  proof (cases "\<exists>c\<in>set ?E. eligible (config p) gs c")
    case True
    from soc_some [OF True, of clk dial a m] obtain k where k: "k < length ?E"
      "select_or_create (config p) gs clk dial a m ?E =
        (Ok (conn (?E ! ((seed clk + k) mod length ?E))),
         ?E[(seed clk + k) mod length ?E :=
              (?E ! ((seed clk + k) mod length ?E))\<lparr>lastUsed := now1 clk,
                 load := load (?E ! ((seed clk + k) mod length ?E)) + 1\<rparr>])"
      by blast
    let ?i = "(seed clk + k) mod length ?E"
    have "0 < length ?E" using k(1) by linarith
    then have i: "?i < length ?E" by simp
    from k(2) fstok have h: "conn (?E ! ?i) = h" by simp
    from k(2) have eq: "?E' = ?E[?i := (?E ! ?i)\<lparr>lastUsed := now1 clk, load := load (?E ! ?i) + 1\<rparr>]"
      by (simp add: E')
    show ?thesis
      by (rule exI [of _ ?i]) (use i h eq in simp)
  next
    case False
    then have none: "\<forall>c\<in>set ?E. \<not> eligible (config p) gs c" by simp
    from soc_none [OF none, of clk dial a m] fstok
    have "?E' = ?E @ [\<lparr>conn = h, lastUsed = now1 clk, createdAt = now2 clk,
                                 state = Ready, load = 1, isStream = m\<rparr>]"
      by (auto simp: E' split: if_splits sum.splits)
    then show ?thesis
      by (intro exI [of _ "length ?E"]) simp
  qed
  then obtain i where i: "i < length ?E'" "conn (?E' ! i) = h" "lastUsed (?E' ! i) = now1 clk"
    "(if i < length ?E then
            ?E' = ?E[i := (?E ! i)\<lparr>lastUsed := now1 clk, load := load (?E ! i) + 1\<rparr>]
          else
            ?E' = ?E @ [\<lparr>conn = h, lastUsed = now1 clk, createdAt = now2 clk,
                                 state = Ready, load = 1, isStream = m\<rparr>])"
    by blast
  have "\<forall>now. now \<le> now1 clk + sint (ConnMaxIdleTime (config p)) \<longrightarrow>
            \<not> sint (ConnMaxIdleTime (config p)) < Sub now (lastUsed (?E' ! i))"
    using i(3) by (simp add: Sub_not_idle)
  with i show "\<exists>i<length ?E'. conn (?E' ! i) = h \<and> lastUsed (?E' ! i) = now1 clk \<and>
         (if i < length ?E then
            ?E' = ?E[i := (?E ! i)\<lparr>lastUsed := now1 clk, load := load (?E ! i) + 1\<rparr>]
          else
            ?E' = ?E @ [\<lparr>conn = h, lastUsed = now1 clk, createdAt = now2 clk,
                                 state = Ready, load = 1, isStream = m\<rparr>]) \<and>
         (\<forall>now. now \<le> now1 clk + sint (ConnMaxIdleTime (config p)) \<longrightarrow>
            \<not> sint (ConnMaxIdleTime (config p)) < Sub now (lastUsed (?E' ! i)))"
    by (intro exI [of _ i]) simp
next
  show "map lastUsed (all_entries (pool_list (ReleaseConn p h'))) = map lastUsed (all_entries (pool_list p))"
    by (simp add: ReleaseConn_pool_list release_pools_all_entries)
qed

theorem GetConn_stamps_lastUsed_witness:
  "fst (GetConn ex_maxCap (ex_pool DefaultPoolConfig [ex_entry 1 0]) ex_gs (ex_clock 0) (Inr 2) ''a'' False) = Ok 1 \<and>
   entries (snd (GetConn ex_maxCap (ex_pool DefaultPoolConfig [ex_entry 1 0]) ex_gs (ex_clock 0) (Inr 2) ''a'' False))
      ''a'' False = [(ex_entry 1 0)\<lparr>lastUsed := 5, load := 1\<rparr>] \<and>
   \<not> sint (ConnMaxIdleTime DefaultPoolConfig) < Sub (5 + 1800000000000) 5 \<and>
   sint (ConnMaxIdleTime DefaultPoolConfig) < Sub (5 + 1800000000001) 5"
proof -
  let ?p = "ex_pool DefaultPoolConfig [ex_entry 1 0]"
  let ?r = "GetConn ex_maxCap ?p ex_gs (ex_clock 0) (Inr 2) ''a'' False"
  have E: "entries ?p ''a'' False = [ex_entry 1 0]" by (rule ex_entries)
  have ok: "fst ?r = Ok 1"
    by (simp add: GetConn_def GetConn_locked_def select_or_create_def lookup_pool_def pool_list_def
          ex_pool_def conns_of_def ex_clock_def scan.simps eligible_def ex_entry_def ex_gs_def
          DefaultPoolConfig_def Let_def)
  from GetConn_stamps_lastUsed [where mc = ex_maxCap, of ?p ex_gs "ex_clock 0" "Inr 2" "''a''" False 1 0] ok
  obtain i where i: "i < length (entries (snd ?r) ''a'' False)"
    "lastUsed (entries (snd ?r) ''a'' False ! i) = now1 (ex_clock 0)"
    "(if i < length (entries ?p ''a'' False) then
        entries (snd ?r) ''a'' False =
          (entries ?p ''a'' False)[i := (entries ?p ''a'' False ! i)\<lparr>lastUsed := now1 (ex_clock 0),
                                      load := load (entries ?p ''a'' False ! i) + 1\<rparr>]
      else
        entries (snd ?r) ''a'' False =
          entries ?p ''a'' False @ [\<lparr>conn = 1, lastUsed = now1 (ex_clock 0), createdAt = now2 (ex_clock 0),
                                 state = Ready, load = 1, isStream = False\<rparr>])"
    "\<forall>now. now \<le> now1 (ex_clock 0) + sint (ConnMaxIdleTime (config ?p)) \<longrightarrow>
        \<not> sint (ConnMaxIdleTime (config ?p)) < Sub now (lastUsed (entries (snd ?r) ''a'' False ! i))"
    by blast
  have cfg: "config ?p = DefaultPoolConfig" by (simp add: ex_pool_def)
  have idle: "sint (ConnMaxIdleTime DefaultPoolConfig) = 1800000000000"
    by (simp add: DefaultPoolConfig_def second_def)
  have direct: "entries (snd ?r) ''a'' False = [(ex_entry 1 0)\<lparr>lastUsed := 5, load := 1\<rparr>]"
    by (simp add: GetConn_def GetConn_locked_def select_or_create_def lookup_pool_def pool_list_def
          ex_pool_def conns_of_def set_conns_def ex_clock_def scan.simps eligible_def ex_entry_def ex_gs_def
          DefaultPoolConfig_def Let_def entries_def)
  from i(2,4) have "\<not> sint (ConnMaxIdleTime DefaultPoolConfig) < Sub (5 + 1800000000000) 5"
    unfolding cfg by (simp add: ex_clock_def idle)
  moreover have "sint (ConnMaxIdleTime DefaultPoolConfig) < Sub (5 + 1800000000001) 5"
    by (simp add: idle Sub_def)
  ultimately show ?thesis using ok direct by simp
qed

subsection \<open>Acquire after teardown, and release\<close>

lemma is_Panic_simps [simp]:
  "is_Panic (Ok x) = False"
  "is_Panic (Panic y) = True"
  "is_Panic (Err e) = False"
  by (simp_all add: is_Panic_def)

lemma is_Panic_to_result [simp]: "\<not> is_Panic (to_result e)"
  by (cases e) (simp_all add: to_result_def)

lemma nil_map_not_acquirable: "pools p = None \<Longrightarrow> \<not> acquirable mc p a"
  by (simp add: acquirable_def lookup_pool_def pool_list_def)

lemma Close_open:
  "\<not> stopped p \<Longrightarrow>
     Close p cl =
       (to_result (fst (close_pools cl (pool_list p) (None, closeLog p))),
        p\<lparr>pools := None, stopped := True, closeLog := snd (close_pools cl (pool_list p) (None, closeLog p))\<rparr>)"
  by (simp add: Close_def split_beta)

text \<open>
  Claim C9. \<^verbatim>\<open>Close\<close> on a pool that was not closed before returns without a panic and
  leaves the nil map. On a nil map every \<^verbatim>\<open>GetConn\<close> panics and changes nothing: the
  address is not found, and when \<^verbatim>\<open>make\<close> accepts the capacity \<open>MinConnsPerAddr\<close> the
  assignment \<^verbatim>\<open>p.pools[address] = pool\<close> writes to the nil map; when \<^verbatim>\<open>make\<close> refuses the
  capacity (negative, or too large) the panic is that of \<^verbatim>\<open>make\<close>, just before the
  assignment. No \<^verbatim>\<open>GetConn\<close> after \<^verbatim>\<open>Close\<close> returns a handle or an error.
\<close>

theorem GetConn_after_Close_panics:
  "(pools p = None \<longrightarrow>
      GetConn mc p gs clk dial a m =
        (Panic (if make_ok mc (MinConnsPerAddr (config p)) then NilMapWrite else MakeSliceCap), p)) \<and>
   (\<not> stopped p \<longrightarrow>
      \<not> is_Panic (fst (Close p cl)) \<and>
      pools (snd (Close p cl)) = None \<and>
      is_Panic (fst (GetConn mc (snd (Close p cl)) gs clk dial a m)) \<and>
      snd (GetConn mc (snd (Close p cl)) gs clk dial a m) = snd (Close p cl) \<and>
      (make_ok mc (MinConnsPerAddr (config p)) \<longrightarrow>
         fst (GetConn mc (snd (Close p cl)) gs clk dial a m) = Panic NilMapWrite))"
proof (intro conjI impI)
  assume "pools p = None"
  then show "GetConn mc p gs clk dial a m =
        (Panic (if make_ok mc (MinConnsPerAddr (config p)) then NilMapWrite else MakeSliceCap), p)"
    by (intro GetConn_panic nil_map_not_acquirable)
next
  assume o: "\<not> stopped p"
  show "\<not> is_Panic (fst (Close p cl))" by (simp add: Close_open [OF o])
  show nil: "pools (snd (Close p cl)) = None" by (simp add: Close_open [OF o])
  have cfg: "config (snd (Close p cl)) = config p" by (simp add: Close_open [OF o])
  have "\<not> acquirable mc (snd (Close p cl)) a" using nil by (rule nil_map_not_acquirable)
  note pan = GetConn_panic [OF this, of gs clk dial m]
  show "is_Panic (fst (GetConn mc (snd (Close p cl)) gs clk dial a m))"
    by (simp add: pan)
  show "snd (GetConn mc (snd (Close p cl)) gs clk dial a m) = snd (Close p cl)"
    by (simp add: pan)
  show "fst (GetConn mc (snd (Close p cl)) gs clk dial a m) = Panic NilMapWrite"
    if "make_ok mc (MinConnsPerAddr (config p))"
    using that by (simp add: pan cfg)
qed

theorem GetConn_after_Close_panics_witness:
  "fst (Close (ex_pool DefaultPoolConfig [ex_entry 1 0]) (\<lambda>h. None)) = Ok () \<and>
   pools (snd (Close (ex_pool DefaultPoolConfig [ex_entry 1 0]) (\<lambda>h. None))) = None \<and>
   fst (GetConn ex_maxCap (snd (Close (ex_pool DefaultPoolConfig [ex_entry 1 0]) (\<lambda>h. None)))
          ex_gs (ex_clock 0) (Inr 2) ''a'' False) = Panic NilMapWrite \<and>
   fst (GetConn ex_maxCap (snd (Close (ex_pool DefaultPoolConfig [ex_entry 1 0]) (\<lambda>h. None)))
          ex_gs (ex_clock 0) (Inr 2) ''b'' True) = Panic NilMapWrite \<and>
   fst (GetConn ex_maxCap
          (snd (Close (ex_pool (DefaultPoolConfig\<lparr>MinConnsPerAddr := 2 ^ 60\<rparr>) [ex_entry 1 0]) (\<lambda>h. None)))
          ex_gs (ex_clock 0) (Inr 2) ''a'' False) = Panic MakeSliceCap"
proof -
  let ?p = "ex_pool DefaultPoolConfig [ex_entry 1 0]"
  let ?q = "ex_pool (DefaultPoolConfig\<lparr>MinConnsPerAddr := 2 ^ 60\<rparr>) [ex_entry 1 0]"
  have o: "\<not> stopped ?p" "\<not> stopped ?q" by (simp_all add: ex_pool_def)
  have m: "make_ok ex_maxCap (MinConnsPerAddr (config ?p))"
    by (simp add: ex_pool_def DefaultPoolConfig_def make_ok_def ex_maxCap_def)
  have c: "fst (Close ?p (\<lambda>h. None)) = Ok ()"
    by (simp add: Close_def ex_pool_def pool_list_def to_result_def)
  have part1: "fst (Close ?p (\<lambda>h. None)) = Ok () \<and>
      pools (snd (Close ?p (\<lambda>h. None))) = None \<and>
      fst (GetConn ex_maxCap (snd (Close ?p (\<lambda>h. None))) ex_gs (ex_clock 0) (Inr 2) ''a'' False) = Panic NilMapWrite \<and>
      fst (GetConn ex_maxCap (snd (Close ?p (\<lambda>h. None))) ex_gs (ex_clock 0) (Inr 2) ''b'' True) = Panic NilMapWrite"
    using GetConn_after_Close_panics [where mc = ex_maxCap, of ?p ex_gs "ex_clock 0" "Inr 2" "''a''" False "\<lambda>h. None"]
      GetConn_after_Close_panics [where mc = ex_maxCap, of ?p ex_gs "ex_clock 0" "Inr 2" "''b''" True "\<lambda>h. None"]
      o(1) m c
    by simp
  have nil: "pools (snd (Close ?q (\<lambda>h. None))) = None" and
    cfg: "config (snd (Close ?q (\<lambda>h. None))) = DefaultPoolConfig\<lparr>MinConnsPerAddr := 2 ^ 60\<rparr>"
    by (simp_all add: Close_def split_beta ex_pool_def)
  have big: "\<not> make_ok ex_maxCap (2 ^ 60)" by (simp add: make_ok_def ex_maxCap_def)
  from GetConn_after_Close_panics [where mc = ex_maxCap, of "snd (Close ?q (\<lambda>h. None))" ex_gs "ex_clock 0"
      "Inr 2" "''a''" False "\<lambda>h. None"] nil
  have "GetConn ex_maxCap (snd (Close ?q (\<lambda>h. None))) ex_gs (ex_clock 0) (Inr 2) ''a'' False =
      (Panic (if make_ok ex_maxCap (MinConnsPerAddr (config (snd (Close ?q (\<lambda>h. None)))))
              then NilMapWrite else MakeSliceCap), snd (Close ?q (\<lambda>h. None)))"
    by blast
  then have part2: "fst (GetConn ex_maxCap (snd (Close ?q (\<lambda>h. None))) ex_gs (ex_clock 0) (Inr 2) ''a'' False)
      = Panic MakeSliceCap"
    unfolding cfg using big by simp
  from part1 part2 show ?thesis by (simp only: simp_thms)
qed

lemma ReleaseConn_shape: "shape (ReleaseConn p h) = shape p"
  by (cases "pools p") (simp_all add: shape_def ReleaseConn_def release_pools_shape)

lemma ReleaseConn_id:
  assumes "h \<notin> conn ` set (all_entries (pool_list p))"
  shows "ReleaseConn p h = p"
proof (cases "pools p")
  case None
  then show ?thesis by (simp add: ReleaseConn_def)
next
  case (Some ps)
  with assms have "release_pools h ps = ps" by (simp add: pool_list_def release_pools_id)
  with Some show ?thesis by (simp add: ReleaseConn_def)
qed

text \<open>
  Claim C6. \<^verbatim>\<open>ReleaseConn\<close> has no error result. Reading all entries in its search order
  (pool after pool, unary before stream), the state after it differs from the state before
  in one place at most: the first entry whose handle is \<open>h\<close> has its load lowered by one
  (in \<^verbatim>\<open>int32\<close>). The addresses, the handles of every collection in their order, the
  configuration, the stop flag and the record of closed handles stay as they were: nothing is
  closed, added or removed. When no entry has handle \<open>h\<close> the state is unchanged.
\<close>

theorem ReleaseConn_semantics:
  "all_entries (pool_list (ReleaseConn p h)) = dec_first h (all_entries (pool_list p)) \<and>
   shape (ReleaseConn p h) = shape p \<and>
   closeLog (ReleaseConn p h) = closeLog p \<and>
   stopped (ReleaseConn p h) = stopped p \<and>
   config (ReleaseConn p h) = config p \<and>
   (h \<notin> conn ` set (all_entries (pool_list p)) \<longrightarrow> ReleaseConn p h = p)"
  by (simp add: ReleaseConn_pool_list release_pools_all_entries ReleaseConn_shape ReleaseConn_id)
     (simp add: ReleaseConn_def)

theorem ReleaseConn_semantics_witness:
  "ReleaseConn (ex_pool DefaultPoolConfig [ex_entry 1 2, ex_entry 2 1]) 9 =
     ex_pool DefaultPoolConfig [ex_entry 1 2, ex_entry 2 1] \<and>
   all_entries (pool_list (ReleaseConn (ex_pool DefaultPoolConfig [ex_entry 1 2, ex_entry 2 1]) 2)) =
     [ex_entry 1 2, ex_entry 2 0] \<and>
   ReleaseConn (ex_pool DefaultPoolConfig [ex_entry 1 2, ex_entry 2 1]) 2 =
     ex_pool DefaultPoolConfig [ex_entry 1 2, ex_entry 2 0]"
proof -
  let ?p = "ex_pool DefaultPoolConfig [ex_entry 1 2, ex_entry 2 1]"
  have all: "all_entries (pool_list ?p) = [ex_entry 1 2, ex_entry 2 1]"
    by (simp add: all_entries_def pool_list_def ex_pool_def)
  have direct: "ReleaseConn ?p 2 = ex_pool DefaultPoolConfig [ex_entry 1 2, ex_entry 2 0]"
    by (simp add: ReleaseConn_def ex_pool_def ex_entry_def)
  have notin: "9 \<notin> conn ` set (all_entries (pool_list ?p))"
    by (simp only: all) (simp add: ex_entry_def)
  from ReleaseConn_semantics [of ?p 9] notin have w1: "ReleaseConn ?p 9 = ?p" by blast
  from ReleaseConn_semantics [of ?p 2]
  have "all_entries (pool_list (ReleaseConn ?p 2)) = dec_first 2 (all_entries (pool_list ?p))"
    by blast
  then have w2: "all_entries (pool_list (ReleaseConn ?p 2)) = [ex_entry 1 2, ex_entry 2 0]"
    by (simp only: all) (simp add: ex_entry_def)
  from w1 w2 direct show ?thesis by (simp only: simp_thms)
qed

subsection \<open>The sweep\<close>

lemma tick_pool_list:
  "pool_list (cleanupLoop_tick p gs nowf) = fst (sweep_pools (config p) gs nowf (pool_list p) (closeLog p))"
  by (cases "pools p") (simp_all add: cleanupLoop_tick_def pool_list_def split_beta)

lemma tick_closeLog:
  "closeLog (cleanupLoop_tick p gs nowf) = snd (sweep_pools (config p) gs nowf (pool_list p) (closeLog p))"
  by (cases "pools p") (simp_all add: cleanupLoop_tick_def pool_list_def split_beta)

lemma tick_config [simp]: "config (cleanupLoop_tick p gs nowf) = config p"
  by (cases "pools p") (simp_all add: cleanupLoop_tick_def split_beta)

lemma tick_entries_mset:
  "mset (entries (cleanupLoop_tick p gs nowf) a m) =
     filter_mset (\<lambda>c. \<not> evict (config p) gs (nowf a) c) (mset (entries p a m))"
proof (cases "map_of (fst (sweep_pools (config p) gs nowf (pool_list p) (closeLog p))) a")
  case None
  then have "map_of (pool_list p) a = None" by (simp add: sweep_pools_lookup_None)
  with None show ?thesis by (simp add: entries_def lookup_pool_def tick_pool_list)
next
  case (Some pool')
  from sweep_pools_lookup [OF Some] obtain pool where pool: "map_of (pool_list p) a = Some pool"
    "mset (unaryConns pool') = filter_mset (\<lambda>c. \<not> evict (config p) gs (nowf a) c) (mset (unaryConns pool))"
    "mset (streamConns pool') = filter_mset (\<lambda>c. \<not> evict (config p) gs (nowf a) c) (mset (streamConns pool))"
    by blast
  with Some show ?thesis
    by (simp add: entries_def lookup_pool_def tick_pool_list conns_of_def)
qed

lemma sweep_step_evict:
  "i < length cs \<Longrightarrow> evict cfg gs now (cs ! i) \<Longrightarrow>
     sweep_conns cfg gs now i cs log =
       sweep_conns cfg gs now i (butlast (cs[i := last cs])) (log @ [conn (cs ! i)])"
  by (auto simp: sweep_conns.simps [of cfg gs now i cs log] evict_def Let_def)

lemma sweep_step_keep:
  "i < length cs \<Longrightarrow> \<not> evict cfg gs now (cs ! i) \<Longrightarrow>
     sweep_conns cfg gs now i cs log = sweep_conns cfg gs now (i + 1) cs log"
  by (auto simp: sweep_conns.simps [of cfg gs now i cs log] evict_def Let_def)

text \<open>
  Claim C4. One sweep leaves, in every collection, exactly the entries that are not evicted
  (as a multiset: the removal by swap changes the order), where an entry is evicted when its
  handle reports \<open>TransientFailure\<close> or \<open>Shutdown\<close>, whatever its load, or else when its load
  is 0 and it is past the idle or the lifetime threshold. The handles closed are exactly
  those of the evicted entries. So a broken entry goes, an unused entry past a threshold goes,
  and an entry whose handle is not broken and whose load is not 0 stays, thresholds or not.
  The last two conjuncts are the loop itself: on an evicted entry slot \<open>i\<close> takes the last
  entry, the collection loses its last slot and the loop stays at \<open>i\<close>; otherwise it moves on.
\<close>

theorem sweep_eviction:
  "mset (entries (cleanupLoop_tick p gs nowf) a m) =
     filter_mset (\<lambda>c. \<not> evict (config p) gs (nowf a) c) (mset (entries p a m)) \<and>
   mset (closeLog (cleanupLoop_tick p gs nowf)) =
     mset (closeLog p) + mset (evicted_handles (config p) gs nowf (pool_list p)) \<and>
   map fst (pool_list (cleanupLoop_tick p gs nowf)) = map fst (pool_list p) \<and>
   (\<forall>c\<in>set (entries p a m).
      (failed gs c \<longrightarrow> c \<notin> set (entries (cleanupLoop_tick p gs nowf) a m)) \<and>
      (\<not> failed gs c \<and> load c = 0 \<and>
       (sint (ConnMaxIdleTime (config p)) < Sub (nowf a) (lastUsed c) \<or>
        sint (ConnMaxLifetime (config p)) < Sub (nowf a) (createdAt c)) \<longrightarrow>
         c \<notin> set (entries (cleanupLoop_tick p gs nowf) a m)) \<and>
      (\<not> failed gs c \<and> load c \<noteq> 0 \<longrightarrow> c \<in> set (entries (cleanupLoop_tick p gs nowf) a m)) \<and>
      (\<not> failed gs c \<and> 0 < sint (load c) \<longrightarrow> c \<in> set (entries (cleanupLoop_tick p gs nowf) a m))) \<and>
   (i < length cs \<and> evict cfg gs now (cs ! i) \<longrightarrow>
      sweep_conns cfg gs now i cs log =
        sweep_conns cfg gs now i (butlast (cs[i := last cs])) (log @ [conn (cs ! i)])) \<and>
   (i < length cs \<and> \<not> evict cfg gs now (cs ! i) \<longrightarrow>
      sweep_conns cfg gs now i cs log = sweep_conns cfg gs now (i + 1) cs log)"
proof -
  let ?E = "entries p a m" and ?E' = "entries (cleanupLoop_tick p gs nowf) a m"
  have ms: "mset ?E' = filter_mset (\<lambda>c. \<not> evict (config p) gs (nowf a) c) (mset ?E)"
    by (rule tick_entries_mset)
  have mem: "c \<in> set ?E' \<longleftrightarrow> c \<in> set ?E \<and> \<not> evict (config p) gs (nowf a) c" for c
    using arg_cong [OF ms, of "\<lambda>M. c \<in># M"] by simp
  have pos: "0 < sint (load c) \<Longrightarrow> load c \<noteq> 0" for c :: ConnInfo
    by auto
  have each: "\<forall>c\<in>set ?E.
      (failed gs c \<longrightarrow> c \<notin> set ?E') \<and>
      (\<not> failed gs c \<and> load c = 0 \<and>
       (sint (ConnMaxIdleTime (config p)) < Sub (nowf a) (lastUsed c) \<or>
        sint (ConnMaxLifetime (config p)) < Sub (nowf a) (createdAt c)) \<longrightarrow> c \<notin> set ?E') \<and>
      (\<not> failed gs c \<and> load c \<noteq> 0 \<longrightarrow> c \<in> set ?E') \<and>
      (\<not> failed gs c \<and> 0 < sint (load c) \<longrightarrow> c \<in> set ?E')"
    using pos by (simp add: mem evict_def expired_def)
  have log: "mset (closeLog (cleanupLoop_tick p gs nowf)) =
     mset (closeLog p) + mset (evicted_handles (config p) gs nowf (pool_list p))"
    by (simp add: tick_closeLog sweep_pools_log)
  have keys: "map fst (pool_list (cleanupLoop_tick p gs nowf)) = map fst (pool_list p)"
    by (simp add: tick_pool_list sweep_pools_keys)
  have ev: "i < length cs \<and> evict cfg gs now (cs ! i) \<longrightarrow>
      sweep_conns cfg gs now i cs log =
        sweep_conns cfg gs now i (butlast (cs[i := last cs])) (log @ [conn (cs ! i)])"
    using sweep_step_evict [of i cs cfg gs now log] by blast
  have kp: "i < length cs \<and> \<not> evict cfg gs now (cs ! i) \<longrightarrow>
      sweep_conns cfg gs now i cs log = sweep_conns cfg gs now (i + 1) cs log"
    using sweep_step_keep [of i cs cfg gs now log] by blast
  from ms log keys each ev kp show ?thesis
    by (intro conjI)
qed


theorem sweep_eviction_witness:
  "ex_entry 3 5 \<notin> set (entries (cleanupLoop_tick
      (ex_pool DefaultPoolConfig [ex_entry 3 5, ex_entry 1 0, ex_entry 2 1]) ex_gs (\<lambda>a. 2000000000000)) ''a'' False) \<and>
   ex_entry 1 0 \<notin> set (entries (cleanupLoop_tick
      (ex_pool DefaultPoolConfig [ex_entry 3 5, ex_entry 1 0, ex_entry 2 1]) ex_gs (\<lambda>a. 2000000000000)) ''a'' False) \<and>
   ex_entry 2 1 \<in> set (entries (cleanupLoop_tick
      (ex_pool DefaultPoolConfig [ex_entry 3 5, ex_entry 1 0, ex_entry 2 1]) ex_gs (\<lambda>a. 2000000000000)) ''a'' False) \<and>
   cleanupLoop_tick (ex_pool DefaultPoolConfig [ex_entry 3 5, ex_entry 1 0, ex_entry 2 1]) ex_gs (\<lambda>a. 2000000000000) =
     (ex_pool DefaultPoolConfig [ex_entry 2 1])\<lparr>closeLog := [3, 1]\<rparr>"
proof -
  let ?E = "[ex_entry 3 5, ex_entry 1 0, ex_entry 2 1]"
  let ?p = "ex_pool DefaultPoolConfig ?E"
  let ?t = "cleanupLoop_tick ?p ex_gs (\<lambda>a. 2000000000000)"
  have E: "entries ?p ''a'' False = ?E" by (rule ex_entries)
  have cfg: "config ?p = DefaultPoolConfig" by (simp add: ex_pool_def)
  have idle: "sint (ConnMaxIdleTime DefaultPoolConfig) = 1800000000000"
    by (simp add: DefaultPoolConfig_def second_def)
  have f3: "failed ex_gs (ex_entry 3 5)" by (simp add: failed_def ex_gs_def ex_entry_def)
  have f1: "\<not> failed ex_gs (ex_entry 1 0)" "load (ex_entry 1 0) = 0"
    "sint (ConnMaxIdleTime DefaultPoolConfig) < Sub 2000000000000 (lastUsed (ex_entry 1 0))"
    by (simp_all add: failed_def ex_gs_def ex_entry_def idle Sub_def)
  have f2: "\<not> failed ex_gs (ex_entry 2 1)" "0 < sint (load (ex_entry 2 1))"
    by (simp_all add: failed_def ex_gs_def ex_entry_def)
  note th = sweep_eviction [of ?p ex_gs "\<lambda>a. 2000000000000" "''a''" False 0 "[]" DefaultPoolConfig 0 "[]", unfolded E cfg]
  from th f3 have w1: "ex_entry 3 5 \<notin> set (entries ?t ''a'' False)" by simp
  from th f1 have w2: "ex_entry 1 0 \<notin> set (entries ?t ''a'' False)" by simp
  from th f2 have w3: "ex_entry 2 1 \<in> set (entries ?t ''a'' False)" by simp
  have direct: "?t = (ex_pool DefaultPoolConfig [ex_entry 2 1])\<lparr>closeLog := [3, 1]\<rparr>"
    by (simp add: cleanupLoop_tick_def ex_pool_def sweep_pool_def sweep_conns.simps failed_def
          expired_def ex_gs_def ex_entry_def Sub_def DefaultPoolConfig_def second_def Let_def)
  from w1 w2 w3 direct show ?thesis by (simp only: simp_thms)
qed

subsection \<open>The capacity bound\<close>

lemma soc_length:
  "length (snd (select_or_create cfg gs clk dial a m cs)) = length cs \<or>
   (int (length cs) < MaxConnsPerAddr cfg \<and>
    length (snd (select_or_create cfg gs clk dial a m cs)) = length cs + 1)"
proof (cases "\<exists>c\<in>set cs. eligible cfg gs c")
  case True
  from soc_some [OF True, of clk dial a m] show ?thesis by auto
next
  case False
  then have "\<forall>c\<in>set cs. \<not> eligible cfg gs c" by simp
  from soc_none [OF this, of clk dial a m] show ?thesis by (auto split: sum.splits)
qed

lemma soc_length_le:
  "int (length cs) \<le> MaxConnsPerAddr cfg \<Longrightarrow>
     int (length (snd (select_or_create cfg gs clk dial a m cs))) \<le> MaxConnsPerAddr cfg"
  using soc_length [of cfg gs clk dial a m cs] by auto

lemma soc_loads:
  assumes "\<forall>c\<in>set cs. 0 \<le> sint (load c)"
  shows "\<forall>c\<in>set (snd (select_or_create cfg gs clk dial a m cs)). 0 \<le> sint (load c)"
proof (cases "\<exists>c\<in>set cs. eligible cfg gs c")
  case True
  from soc_some [OF True, of clk dial a m] obtain k where k: "k < length cs"
    "eligible cfg gs (cs ! ((seed clk + k) mod length cs))"
    "snd (select_or_create cfg gs clk dial a m cs) =
       cs[(seed clk + k) mod length cs :=
              (cs ! ((seed clk + k) mod length cs))\<lparr>lastUsed := now1 clk,
                 load := load (cs ! ((seed clk + k) mod length cs)) + 1\<rparr>]"
    by auto
  let ?i = "(seed clk + k) mod length cs"
  have "0 < length cs" using k(1) by linarith
  then have "?i < length cs" by simp
  then have "cs ! ?i \<in> set cs" by simp
  with assms have "0 \<le> sint (load (cs ! ?i))" by blast
  moreover have "sint (load (cs ! ?i) + 1) = sint (load (cs ! ?i)) + 1"
    using k(2) by (auto simp: eligible_def intro: sint_inc)
  ultimately have new: "0 \<le> sint (load ((cs ! ?i)\<lparr>lastUsed := now1 clk, load := load (cs ! ?i) + 1\<rparr>))"
    by simp
  show ?thesis
  proof
    fix c assume "c \<in> set (snd (select_or_create cfg gs clk dial a m cs))"
    then have "c \<in> insert ((cs ! ?i)\<lparr>lastUsed := now1 clk, load := load (cs ! ?i) + 1\<rparr>) (set cs)"
      unfolding k(3) using set_update_subset_insert by fast
    with new assms show "0 \<le> sint (load c)" by auto
  qed
next
  case False
  then have "\<forall>c\<in>set cs. \<not> eligible cfg gs c" by simp
  from soc_none [OF this, of clk dial a m] assms show ?thesis by (auto split: sum.splits)
qed

lemma GetConn_pool_list:
  "acquirable mc p a \<Longrightarrow>
   pool_list (snd (GetConn mc p gs clk dial a m)) =
     AList.update a
       (set_conns m
          (snd (select_or_create (config p) gs clk dial a m (entries p a m)))
          (case lookup_pool p a of None \<Rightarrow> \<lparr>address = a, unaryConns = [], streamConns = []\<rparr> | Some q \<Rightarrow> q))
       (pool_list p)"
  by (simp add: GetConn_unfold Let_def entries_empty_pool)

lemma lookup_pool_mem: "lookup_pool p a = Some q \<Longrightarrow> (a, q) \<in> set (pool_list p)"
  by (simp add: lookup_pool_def map_of_SomeD)

lemma cap_inv_GetConn:
  assumes "0 \<le> MaxConnsPerAddr (config p)" and "cap_inv p"
  shows "cap_inv (snd (GetConn mc p gs clk dial a m))"
proof (cases "acquirable mc p a")
  case False
  from GetConn_panic [OF this] assms(2) show ?thesis by simp
next
  case True
  let ?M = "MaxConnsPerAddr (config p)"
  let ?pool = "case lookup_pool p a of None \<Rightarrow> \<lparr>address = a, unaryConns = [], streamConns = []\<rparr> | Some q \<Rightarrow> q"
  let ?new = "set_conns m (snd (select_or_create (config p) gs clk dial a m (entries p a m))) ?pool"
  have old: "int (length (unaryConns ?pool)) \<le> ?M \<and> int (length (streamConns ?pool)) \<le> ?M"
  proof (cases "lookup_pool p a")
    case None
    with assms(1) show ?thesis by simp
  next
    case (Some q)
    from lookup_pool_mem [OF this] assms(2) Some show ?thesis by (auto simp: cap_inv_def)
  qed
  have e: "entries p a m = conns_of m ?pool" by (simp add: entries_empty_pool)
  have "int (length (entries p a m)) \<le> ?M" using old by (simp add: e conns_of_def)
  then have "int (length (snd (select_or_create (config p) gs clk dial a m (entries p a m)))) \<le> ?M"
    by (rule soc_length_le)
  with old have new: "int (length (unaryConns ?new)) \<le> ?M \<and> int (length (streamConns ?new)) \<le> ?M"
    by (cases m) (simp_all add: set_conns_def)
  show ?thesis
    unfolding cap_inv_def GetConn_pool_list [OF True] GetConn_config
  proof (intro ballI)
    fix x assume "x \<in> set (AList.update a ?new (pool_list p))"
    from set_update_subset [OF this] have "x = (a, ?new) \<or> x \<in> set (pool_list p)" .
    with new assms(2) show "case x of (a, pool) \<Rightarrow>
        int (length (unaryConns pool)) \<le> ?M \<and> int (length (streamConns pool)) \<le> ?M"
      by (auto simp: cap_inv_def)
  qed
qed

lemma ReleaseConn_config [simp]: "config (ReleaseConn p h) = config p"
  by (simp add: ReleaseConn_def)

lemma cap_inv_ReleaseConn: "cap_inv p \<Longrightarrow> cap_inv (ReleaseConn p h)"
  unfolding cap_inv_def ReleaseConn_pool_list ReleaseConn_config
  by (fastforce dest!: release_pools_members)

lemma mset_filter_sub:
  assumes "mset xs = filter_mset P (mset ys)"
  shows "set xs \<subseteq> set ys \<and> length xs \<le> length ys"
proof -
  have "set_mset (mset xs) \<subseteq> set_mset (mset ys)" unfolding assms by auto
  moreover have "size (mset xs) \<le> size (mset ys)" unfolding assms by (rule size_filter_mset_lesseq)
  ultimately show ?thesis by simp
qed

lemma sweep_pools_members:
  "(b, q') \<in> set (fst (sweep_pools cfg gs nowf ps log)) \<Longrightarrow>
     \<exists>q. (b, q) \<in> set ps \<and>
       set (unaryConns q') \<subseteq> set (unaryConns q) \<and> length (unaryConns q') \<le> length (unaryConns q) \<and>
       set (streamConns q') \<subseteq> set (streamConns q) \<and> length (streamConns q') \<le> length (streamConns q)"
proof (induction ps arbitrary: log)
  case Nil
  then show ?case by simp
next
  case (Cons x ps)
  obtain a q where x: "x = (a, q)" by (cases x)
  let ?q' = "fst (sweep_pool cfg gs (nowf a) q log)"
  let ?log = "snd (sweep_pool cfg gs (nowf a) q log)"
  from Cons.prems x have "(b, q') = (a, ?q') \<or> (b, q') \<in> set (fst (sweep_pools cfg gs nowf ps ?log))"
    by (simp add: split_beta Let_def)
  then show ?case
  proof
    assume "(b, q') = (a, ?q')"
    then have "b = a" "q' = ?q'" by simp_all
    with x mset_filter_sub [OF sweep_pool_fst(1) [of cfg gs "nowf a" q log]]
      mset_filter_sub [OF sweep_pool_fst(2) [of cfg gs "nowf a" q log]]
    show ?thesis by (intro exI [of _ q]) simp
  next
    assume "(b, q') \<in> set (fst (sweep_pools cfg gs nowf ps ?log))"
    from Cons.IH [OF this] show ?thesis by auto
  qed
qed

lemma cap_inv_tick: "cap_inv p \<Longrightarrow> cap_inv (cleanupLoop_tick p gs nowf)"
  unfolding cap_inv_def tick_pool_list tick_config
  by (fastforce dest!: sweep_pools_members)

lemma CloseAddress_pool_list:
  "pool_list (snd (CloseAddress p cl a)) = AList.delete a (pool_list p)"
proof (cases "lookup_pool p a")
  case None
  then have "a \<notin> fst ` set (pool_list p)" by (simp add: lookup_pool_def map_of_eq_None_iff)
  with None show ?thesis by (simp add: CloseAddress_def)
next
  case (Some q)
  then show ?thesis by (simp add: CloseAddress_def split_beta pool_list_def)
qed

lemma CloseAddress_config [simp]: "config (snd (CloseAddress p cl a)) = config p"
  by (simp add: CloseAddress_def split_beta split: option.splits)

lemma cap_inv_CloseAddress: "cap_inv p \<Longrightarrow> cap_inv (snd (CloseAddress p cl a))"
  unfolding cap_inv_def CloseAddress_pool_list CloseAddress_config
  by (auto dest: set_delete_subset)

lemma Close_pool_list: "pool_list (snd (Close p cl)) = (if stopped p then pool_list p else [])"
  by (simp add: Close_def split_beta pool_list_def)

lemma Close_config [simp]: "config (snd (Close p cl)) = config p"
  by (simp add: Close_def split_beta)

lemma cap_inv_Close: "cap_inv p \<Longrightarrow> cap_inv (snd (Close p cl))"
  unfolding cap_inv_def Close_pool_list Close_config by simp

lemma step_config [simp]: "config (step p x) = config p"
  by (cases x) simp_all

lemma cap_inv_step:
  "0 \<le> MaxConnsPerAddr (config p) \<Longrightarrow> cap_inv p \<Longrightarrow> cap_inv (step p x)"
  by (cases x) (simp_all add: cap_inv_GetConn cap_inv_ReleaseConn cap_inv_tick cap_inv_CloseAddress cap_inv_Close)

lemma cap_inv_run:
  "0 \<le> MaxConnsPerAddr (config p) \<Longrightarrow> cap_inv p \<Longrightarrow> cap_inv (run p ops)"
  unfolding run_def
proof (induction ops arbitrary: p)
  case Nil
  then show ?case by simp
next
  case (Cons x ops)
  from Cons.prems have "cap_inv (step p x)" by (rule cap_inv_step)
  moreover have "0 \<le> MaxConnsPerAddr (config (step p x))" using Cons.prems(1) by simp
  ultimately show ?case using Cons.IH by simp
qed

lemma entries_ReleaseConn_length: "length (entries (ReleaseConn p h) a m) = length (entries p a m)"
proof -
  let ?f = "\<lambda>pool. (length (unaryConns pool), length (streamConns pool))"
  have "map_option ?f (lookup_pool (ReleaseConn p h) a) = map_option ?f (lookup_pool p a)"
    by (simp add: lookup_pool_def ReleaseConn_pool_list release_pools_lookup)
  then show ?thesis
    by (auto simp: entries_def conns_of_def split: option.splits)
qed

lemma entries_tick_length: "length (entries (cleanupLoop_tick p gs nowf) a m) \<le> length (entries p a m)"
  using mset_filter_sub [OF tick_entries_mset [of p gs nowf a m]] by simp

lemma entries_CloseAddress:
  "entries (snd (CloseAddress p cl a)) a' m = (if a' = a then [] else entries p a' m)"
  by (simp add: entries_def lookup_pool_def CloseAddress_pool_list delete_conv')

lemma entries_Close: "entries (snd (Close p cl)) a m = (if stopped p then entries p a m else [])"
  by (simp add: entries_def lookup_pool_def Close_pool_list)

lemma entries_GetConn_grow:
  assumes "length (entries p a' m') < length (entries (snd (GetConn mc p gs clk dial a m)) a' m')"
  shows "a' = a \<and> m' = m \<and> int (length (entries p a m)) < MaxConnsPerAddr (config p) \<and>
     length (entries (snd (GetConn mc p gs clk dial a m)) a m) = length (entries p a m) + 1"
proof -
  have acq: "acquirable mc p a"
  proof (rule ccontr)
    assume "\<not> acquirable mc p a"
    from GetConn_panic [OF this] assms show False by simp
  qed
  from assms have same: "a' = a \<and> m' = m"
    by (simp add: GetConn_entries [OF acq] split: if_splits)
  with assms soc_length [of "config p" gs clk dial a m "entries p a m"]
  show ?thesis by (auto simp: GetConn_entries [OF acq])
qed


lemma cap_inv_New: "cap_inv (NewConnPool cfg)"
  by (simp add: cap_inv_def NewConnPool_def pool_list_def)

text \<open>
  Claim C1. With \<open>MaxConnsPerAddr\<close> not negative, the bound "every collection of every
  address holds at most \<open>MaxConnsPerAddr\<close> entries" holds in a new pool and is kept by every
  sequence of \<^verbatim>\<open>GetConn\<close>, \<^verbatim>\<open>ReleaseConn\<close>, sweep, \<^verbatim>\<open>CloseAddress\<close> and \<^verbatim>\<open>Close\<close>.
  A collection grows only in a \<^verbatim>\<open>GetConn\<close> for its own address and mode, by one entry, and
  only from a length strictly below \<open>MaxConnsPerAddr\<close>; \<^verbatim>\<open>ReleaseConn\<close> keeps every length,
  and the sweep, \<^verbatim>\<open>CloseAddress\<close> and \<^verbatim>\<open>Close\<close> never lengthen a collection.
\<close>

theorem capacity_invariant:
  "cap_inv (NewConnPool cfg) \<and>
   (0 \<le> MaxConnsPerAddr (config p) \<and> cap_inv p \<longrightarrow> cap_inv (run p ops)) \<and>
   (length (entries p a' m') < length (entries (snd (GetConn mc p gs clk dial a m)) a' m') \<longrightarrow>
      a' = a \<and> m' = m \<and> int (length (entries p a m)) < MaxConnsPerAddr (config p) \<and>
      length (entries (snd (GetConn mc p gs clk dial a m)) a m) = length (entries p a m) + 1) \<and>
   length (entries (ReleaseConn p h) a' m') = length (entries p a' m') \<and>
   length (entries (cleanupLoop_tick p gs nowf) a' m') \<le> length (entries p a' m') \<and>
   length (entries (snd (CloseAddress p cl a)) a' m') \<le> length (entries p a' m') \<and>
   length (entries (snd (Close p cl)) a' m') \<le> length (entries p a' m')"
proof (intro conjI impI)
  show "cap_inv (NewConnPool cfg)" by (rule cap_inv_New)
  show "cap_inv (run p ops)" if "0 \<le> MaxConnsPerAddr (config p) \<and> cap_inv p"
    using that by (auto intro: cap_inv_run)
  show "a' = a" "m' = m" "int (length (entries p a m)) < MaxConnsPerAddr (config p)"
    "length (entries (snd (GetConn mc p gs clk dial a m)) a m) = length (entries p a m) + 1"
    if "length (entries p a' m') < length (entries (snd (GetConn mc p gs clk dial a m)) a' m')"
    using entries_GetConn_grow [OF that] by simp_all
  show "length (entries (ReleaseConn p h) a' m') = length (entries p a' m')"
    by (rule entries_ReleaseConn_length)
  show "length (entries (cleanupLoop_tick p gs nowf) a' m') \<le> length (entries p a' m')"
    by (rule entries_tick_length)
  show "length (entries (snd (CloseAddress p cl a)) a' m') \<le> length (entries p a' m')"
    by (simp add: entries_CloseAddress)
  show "length (entries (snd (Close p cl)) a' m') \<le> length (entries p a' m')"
    by (simp add: entries_Close)
qed

theorem capacity_invariant_witness:
  "cap_inv (run (NewConnPool (Some (DefaultPoolConfig\<lparr>MaxConnsPerAddr := 1, MaxLoadPerConn := 1\<rparr>)))
      [OpGetConn ex_maxCap ex_gs (ex_clock 0) (Inr 1) ''a'' False,
       OpGetConn ex_maxCap ex_gs (ex_clock 1) (Inr 2) ''a'' False,
       OpReleaseConn 1,
       OpGetConn ex_maxCap ex_gs (ex_clock 2) (Inr 3) ''a'' True]) \<and>
   map (\<lambda>(a, pool). (a, map conn (unaryConns pool), map conn (streamConns pool)))
     (pool_list (run (NewConnPool (Some (DefaultPoolConfig\<lparr>MaxConnsPerAddr := 1, MaxLoadPerConn := 1\<rparr>)))
      [OpGetConn ex_maxCap ex_gs (ex_clock 0) (Inr 1) ''a'' False,
       OpGetConn ex_maxCap ex_gs (ex_clock 1) (Inr 2) ''a'' False,
       OpReleaseConn 1,
       OpGetConn ex_maxCap ex_gs (ex_clock 2) (Inr 3) ''a'' True])) = [(''a'', [1], [3])] \<and>
   int (length (entries (ex_pool DefaultPoolConfig [ex_entry 3 0]) ''a'' False))
     < MaxConnsPerAddr (config (ex_pool DefaultPoolConfig [ex_entry 3 0])) \<and>
   length (entries (snd (GetConn ex_maxCap (ex_pool DefaultPoolConfig [ex_entry 3 0])
                           ex_gs (ex_clock 0) (Inr 4) ''a'' False)) ''a'' False) = 2"
proof -
  let ?p = "NewConnPool (Some (DefaultPoolConfig\<lparr>MaxConnsPerAddr := 1, MaxLoadPerConn := 1\<rparr>))"
  let ?ops = "[OpGetConn ex_maxCap ex_gs (ex_clock 0) (Inr 1) ''a'' False,
       OpGetConn ex_maxCap ex_gs (ex_clock 1) (Inr 2) ''a'' False,
       OpReleaseConn 1,
       OpGetConn ex_maxCap ex_gs (ex_clock 2) (Inr 3) ''a'' True]"
  have cfg: "0 \<le> MaxConnsPerAddr (config ?p)" by (simp add: NewConnPool_def)
  from capacity_invariant [where mc = ex_maxCap, of "Some (DefaultPoolConfig\<lparr>MaxConnsPerAddr := 1, MaxLoadPerConn := 1\<rparr>)" ?p ?ops]
    cfg
  have w: "cap_inv (run ?p ?ops)" by blast
  have direct: "map (\<lambda>(a, pool). (a, map conn (unaryConns pool), map conn (streamConns pool)))
     (pool_list (run ?p ?ops)) = [(''a'', [1], [3])]"
    by (simp add: run_def GetConn_def GetConn_locked_def select_or_create_def lookup_pool_def pool_list_def
          NewConnPool_def DefaultPoolConfig_def conns_of_def set_conns_def ReleaseConn_def
          scan.simps eligible_def ex_gs_def ex_clock_def Let_def)
  let ?q = "ex_pool DefaultPoolConfig [ex_entry 3 0]"
  have grow: "length (entries ?q ''a'' False)
      < length (entries (snd (GetConn ex_maxCap ?q ex_gs (ex_clock 0) (Inr 4) ''a'' False)) ''a'' False)"
    by (simp add: GetConn_def GetConn_locked_def select_or_create_def lookup_pool_def pool_list_def
          ex_pool_def DefaultPoolConfig_def conns_of_def set_conns_def entries_def
          scan.simps eligible_def ex_gs_def ex_entry_def ex_clock_def Let_def)
  from capacity_invariant [where mc = ex_maxCap, of None ?q "[]" "''a''" False ex_gs "ex_clock 0" "Inr 4" "''a''" False] grow
  have g: "int (length (entries ?q ''a'' False)) < MaxConnsPerAddr (config ?q) \<and>
      length (entries (snd (GetConn ex_maxCap ?q ex_gs (ex_clock 0) (Inr 4) ''a'' False)) ''a'' False) =
        length (entries ?q ''a'' False) + 1"
    by blast
  then have g': "int (length (entries ?q ''a'' False)) < MaxConnsPerAddr (config ?q) \<and>
      length (entries (snd (GetConn ex_maxCap ?q ex_gs (ex_clock 0) (Inr 4) ''a'' False)) ''a'' False) = 2"
    by (simp add: ex_entries)
  from w direct g' show ?thesis by (simp only: simp_thms)
qed

subsection \<open>Loads\<close>

lemma set_all_entries:
  "set (all_entries ps) = (\<Union>x\<in>set ps. set (unaryConns (snd x)) \<union> set (streamConns (snd x)))"
  by (auto simp: all_entries_def)

lemma load_inv_alt:
  "load_inv p \<longleftrightarrow>
     (\<forall>x\<in>set (pool_list p). \<forall>c\<in>set (unaryConns (snd x)) \<union> set (streamConns (snd x)). 0 \<le> sint (load c))"
  unfolding load_inv_def set_all_entries by blast

lemma load_inv_GetConn:
  assumes "load_inv p"
  shows "load_inv (snd (GetConn mc p gs clk dial a m))"
proof (cases "acquirable mc p a")
  case False
  from GetConn_panic [OF this] assms show ?thesis by simp
next
  case True
  let ?pool = "case lookup_pool p a of None \<Rightarrow> \<lparr>address = a, unaryConns = [], streamConns = []\<rparr> | Some q \<Rightarrow> q"
  let ?new = "set_conns m (snd (select_or_create (config p) gs clk dial a m (entries p a m))) ?pool"
  have old: "\<forall>c\<in>set (unaryConns ?pool) \<union> set (streamConns ?pool). 0 \<le> sint (load c)"
  proof (cases "lookup_pool p a")
    case None
    then show ?thesis by simp
  next
    case (Some q)
    from lookup_pool_mem [OF this] assms Some show ?thesis
      unfolding load_inv_alt by fastforce
  qed
  have e: "entries p a m = conns_of m ?pool" by (simp add: entries_empty_pool)
  have "\<forall>c\<in>set (entries p a m). 0 \<le> sint (load c)"
    unfolding e using old by (auto simp: conns_of_def)
  then have "\<forall>c\<in>set (snd (select_or_create (config p) gs clk dial a m (entries p a m))). 0 \<le> sint (load c)"
    by (rule soc_loads)
  with old have new: "\<forall>c\<in>set (unaryConns ?new) \<union> set (streamConns ?new). 0 \<le> sint (load c)"
    by (auto simp: set_conns_def)
  show ?thesis
    unfolding load_inv_alt GetConn_pool_list [OF True]
  proof (intro ballI)
    fix x c
    assume "x \<in> set (AList.update a ?new (pool_list p))"
      and c: "c \<in> set (unaryConns (snd x)) \<union> set (streamConns (snd x))"
    from set_update_subset [OF this(1)] have "x = (a, ?new) \<or> x \<in> set (pool_list p)" .
    then show "0 \<le> sint (load c)"
    proof
      assume "x = (a, ?new)"
      with c new show ?thesis by simp
    next
      assume "x \<in> set (pool_list p)"
      with c assms show ?thesis unfolding load_inv_alt by blast
    qed
  qed
qed

lemma dec_first_loads:
  assumes "\<forall>c\<in>set es. 0 \<le> sint (load c)"
    and "case find (\<lambda>c. conn c = h) es of None \<Rightarrow> True | Some c \<Rightarrow> 0 < sint (load c)"
  shows "\<forall>c\<in>set (dec_first h es). 0 \<le> sint (load c)"
  using assms
proof (induction es)
  case Nil
  then show ?case by simp
next
  case (Cons e es)
  show ?case
  proof (cases "conn e = h")
    case True
    with Cons.prems(2) have "0 < sint (load e)" by simp
    then have "sint (load e - 1) = sint (load e) - 1" by (rule sint_dec)
    with \<open>0 < sint (load e)\<close> True Cons.prems(1) show ?thesis by simp
  next
    case False
    with Cons show ?thesis by simp
  qed
qed

lemma load_inv_ReleaseConn:
  "load_inv p \<Longrightarrow> release_matched p h \<Longrightarrow> load_inv (ReleaseConn p h)"
  unfolding load_inv_def release_matched_def ReleaseConn_pool_list release_pools_all_entries
  by (rule dec_first_loads)

lemma load_inv_tick: "load_inv p \<Longrightarrow> load_inv (cleanupLoop_tick p gs nowf)"
  unfolding load_inv_alt tick_pool_list
proof (intro ballI)
  fix x c
  assume inv: "\<forall>x\<in>set (pool_list p). \<forall>c\<in>set (unaryConns (snd x)) \<union> set (streamConns (snd x)). 0 \<le> sint (load c)"
    and x: "x \<in> set (fst (sweep_pools (config p) gs nowf (pool_list p) (closeLog p)))"
    and c: "c \<in> set (unaryConns (snd x)) \<union> set (streamConns (snd x))"
  obtain b q' where bq: "x = (b, q')" by (cases x)
  from sweep_pools_members [OF x [unfolded bq]] obtain q where q: "(b, q) \<in> set (pool_list p)"
    "set (unaryConns q') \<subseteq> set (unaryConns q)" "set (streamConns q') \<subseteq> set (streamConns q)"
    by blast
  from c bq q(2,3) have "c \<in> set (unaryConns (snd (b, q))) \<union> set (streamConns (snd (b, q)))" by auto
  with inv q(1) show "0 \<le> sint (load c)" by blast
qed

lemma load_inv_CloseAddress: "load_inv p \<Longrightarrow> load_inv (snd (CloseAddress p cl a))"
  unfolding load_inv_alt CloseAddress_pool_list
proof (intro ballI)
  fix x c
  assume inv: "\<forall>x\<in>set (pool_list p). \<forall>c\<in>set (unaryConns (snd x)) \<union> set (streamConns (snd x)). 0 \<le> sint (load c)"
    and x: "x \<in> set (AList.delete a (pool_list p))"
    and c: "c \<in> set (unaryConns (snd x)) \<union> set (streamConns (snd x))"
  from set_delete_subset [OF x] inv c show "0 \<le> sint (load c)" by blast
qed

lemma load_inv_Close: "load_inv p \<Longrightarrow> load_inv (snd (Close p cl))"
  unfolding load_inv_alt Close_pool_list by (auto split: if_splits)

lemma load_inv_New: "load_inv (NewConnPool cfg)"
  by (simp add: load_inv_def NewConnPool_def pool_list_def all_entries_def)

lemma load_inv_run: "load_inv p \<Longrightarrow> matched p ops \<Longrightarrow> load_inv (run p ops)"
  unfolding run_def
proof (induction ops arbitrary: p)
  case Nil
  then show ?case by simp
next
  case (Cons x ops)
  have "load_inv (step p x) \<and> matched (step p x) ops"
    using Cons.prems
    by (cases x) (simp_all add: load_inv_GetConn load_inv_ReleaseConn load_inv_tick
        load_inv_CloseAddress load_inv_Close)
  with Cons.IH show ?case by simp
qed

text \<open>
  Claim C5, as the code has it. \<^verbatim>\<open>ReleaseConn\<close> subtracts one from the load of the entry it
  finds without looking at the load, so a release that is not matched by an acquisition (a
  second release of the same handle) takes the load of an unused entry to -1.
\<close>

theorem load_negative_after_double_release:
  "\<not> load_inv (run (NewConnPool None)
       [OpGetConn ex_maxCap ex_gs (ex_clock 0) (Inr 1) ''a'' False, OpReleaseConn 1, OpReleaseConn 1])"
  by (simp add: run_def GetConn_def GetConn_locked_def select_or_create_def lookup_pool_def pool_list_def
        NewConnPool_def DefaultPoolConfig_def conns_of_def set_conns_def ReleaseConn_def
        load_inv_def all_entries_def Let_def)

text \<open>
  Claim C5, amended. The loads of all entries are non-negative in a new pool, and stay so
  along every sequence of \<^verbatim>\<open>GetConn\<close>, \<^verbatim>\<open>ReleaseConn\<close>, sweep, \<^verbatim>\<open>CloseAddress\<close> and
  \<^verbatim>\<open>Close\<close> in which every \<^verbatim>\<open>ReleaseConn\<close> finds no entry for its handle or finds one
  whose load is positive. Each operation keeps the property on its own, \<^verbatim>\<open>ReleaseConn\<close>
  under that condition.
\<close>

theorem load_nonneg_matched:
  "load_inv (NewConnPool cfg) \<and>
   (load_inv p \<and> matched p ops \<longrightarrow> load_inv (run p ops)) \<and>
   (load_inv p \<longrightarrow>
      load_inv (snd (GetConn mc p gs clk dial a m)) \<and>
      load_inv (cleanupLoop_tick p gs nowf) \<and>
      load_inv (snd (CloseAddress p cl a)) \<and>
      load_inv (snd (Close p cl)) \<and>
      (release_matched p h \<longrightarrow> load_inv (ReleaseConn p h)))"
proof (intro conjI impI)
  show "load_inv (NewConnPool cfg)" by (rule load_inv_New)
  show "load_inv (run p ops)" if "load_inv p \<and> matched p ops"
    using that by (auto intro: load_inv_run)
  show "load_inv (snd (GetConn mc p gs clk dial a m))" if "load_inv p"
    using that by (rule load_inv_GetConn)
  show "load_inv (cleanupLoop_tick p gs nowf)" if "load_inv p"
    using that by (rule load_inv_tick)
  show "load_inv (snd (CloseAddress p cl a))" if "load_inv p"
    using that by (rule load_inv_CloseAddress)
  show "load_inv (snd (Close p cl))" if "load_inv p"
    using that by (rule load_inv_Close)
  show "load_inv (ReleaseConn p h)" if "load_inv p" "release_matched p h"
    using that by (rule load_inv_ReleaseConn)
qed

theorem load_nonneg_matched_witness:
  "matched (NewConnPool None) [OpGetConn ex_maxCap ex_gs (ex_clock 0) (Inr 1) ''a'' False, OpReleaseConn 1] \<and>
   load_inv (run (NewConnPool None) [OpGetConn ex_maxCap ex_gs (ex_clock 0) (Inr 1) ''a'' False, OpReleaseConn 1]) \<and>
   map load (all_entries (pool_list (run (NewConnPool None)
      [OpGetConn ex_maxCap ex_gs (ex_clock 0) (Inr 1) ''a'' False, OpReleaseConn 1]))) = [0]"
proof -
  let ?ops = "[OpGetConn ex_maxCap ex_gs (ex_clock 0) (Inr 1) ''a'' False, OpReleaseConn 1]"
  have m: "matched (NewConnPool None) ?ops"
    by (simp add: GetConn_def GetConn_locked_def select_or_create_def lookup_pool_def pool_list_def
        NewConnPool_def DefaultPoolConfig_def conns_of_def set_conns_def release_matched_def
        all_entries_def Let_def)
  from load_nonneg_matched [where mc = ex_maxCap, of None "NewConnPool None" ?ops] m
  have w: "load_inv (run (NewConnPool None) ?ops)" by blast
  have direct: "map load (all_entries (pool_list (run (NewConnPool None) ?ops))) = [0]"
    by (simp add: run_def GetConn_def GetConn_locked_def select_or_create_def lookup_pool_def pool_list_def
        NewConnPool_def DefaultPoolConfig_def conns_of_def set_conns_def ReleaseConn_def
        all_entries_def Let_def)
  from m w direct show ?thesis by (simp only: simp_thms)
qed

subsection \<open>CloseAddress\<close>

lemma close_errors_Cons:
  "close_errors cl wrap (c # cs) =
     (case cl (conn c) of None \<Rightarrow> close_errors cl wrap cs | Some e \<Rightarrow> wrap e # close_errors cl wrap cs)"
  by (simp add: close_errors_def map_filter_simps split: option.splits)

lemma close_errors_Nil [simp]: "close_errors cl wrap [] = []"
  by (simp add: close_errors_def map_filter_simps)

lemma close_conns_eq:
  "close_conns cl wrap cs (le, log) =
     ((if close_errors cl wrap cs = [] then le else Some (last (close_errors cl wrap cs))),
      log @ map conn cs)"
  by (induction cs arbitrary: le log) (auto simp: close_errors_Cons split: option.splits)

lemma update_absent: "a \<notin> fst ` set ps \<Longrightarrow> AList.update a v ps = ps @ [(a, v)]"
  by (induction ps) auto

lemma CloseAddress_absent: "lookup_pool p a = None \<Longrightarrow> CloseAddress p cl a = (Ok (), p)"
  by (simp add: CloseAddress_def)

lemma CloseAddress_present:
  assumes "lookup_pool p a = Some pool"
  shows "CloseAddress p cl a =
     (last_error (close_errors cl CloseUnaryError (unaryConns pool) @
                  close_errors cl CloseStreamError (streamConns pool)),
      p\<lparr>pools := Some (AList.delete a (pool_list p)),
        closeLog := closeLog p @ map conn (unaryConns pool) @ map conn (streamConns pool)\<rparr>)"
  using assms
  by (simp add: CloseAddress_def close_conns_eq last_error_def to_result_def)

lemma lookup_after_CloseAddress:
  "lookup_pool (snd (CloseAddress p cl a)) a' = (if a' = a then None else lookup_pool p a')"
  by (simp add: lookup_pool_def CloseAddress_pool_list delete_conv')

lemma pools_after_CloseAddress:
  assumes "pools p \<noteq> None"
  shows "pools (snd (CloseAddress p cl a)) = Some (AList.delete a (pool_list p))"
proof (cases "lookup_pool p a")
  case None
  then have "a \<notin> fst ` set (pool_list p)" by (simp add: lookup_pool_def map_of_eq_None_iff)
  then have "AList.delete a (pool_list p) = pool_list p" by simp
  with None assms show ?thesis by (auto simp: CloseAddress_absent pool_list_def)
next
  case (Some pool)
  then show ?thesis by (simp add: CloseAddress_present)
qed

lemma GetConn_absent:
  assumes "pools p = Some ps" and "map_of ps a = None" and "make_ok mc (MinConnsPerAddr (config p))"
  shows "GetConn mc p gs clk dial a m =
     (fst (select_or_create (config p) gs clk dial a m []),
      p\<lparr>pools := Some (ps @ [(a, set_conns m (snd (select_or_create (config p) gs clk dial a m []))
                                   \<lparr>address = a, unaryConns = [], streamConns = []\<rparr>)])\<rparr>)"
proof -
  have "a \<notin> fst ` set ps" using assms(2) by (simp add: map_of_eq_None_iff)
  then have "AList.update a v ps = ps @ [(a, v)]" for v by (rule update_absent)
  with assms show ?thesis
    by (simp add: GetConn_def GetConn_locked_def lookup_pool_def pool_list_def conns_of_def split_beta Let_def)
qed

text \<open>
  Claim C7. \<^verbatim>\<open>CloseAddress\<close> on a known address takes its pool out of the map, closes the
  handles of the unary collection and then those of the stream collection, and returns the
  last error that a close gave (none: nil). After it the address is unknown, so a second
  \<^verbatim>\<open>CloseAddress\<close> returns nil and changes nothing; other addresses are untouched. A
  \<^verbatim>\<open>GetConn\<close> for the address then, when the map is not nil and \<^verbatim>\<open>make\<close> accepts the
  capacity \<open>MinConnsPerAddr\<close>, starts from a new, empty \<^verbatim>\<open>AddressPool\<close>: the pool it puts
  in the map holds what the call itself creates and none of the removed entries.
\<close>

theorem CloseAddress_idempotent:
  "lookup_pool (snd (CloseAddress p cl a)) a = None \<and>
   CloseAddress (snd (CloseAddress p cl a)) cl' a = (Ok (), snd (CloseAddress p cl a)) \<and>
   (lookup_pool p a = None \<longrightarrow> CloseAddress p cl a = (Ok (), p)) \<and>
   (lookup_pool p a = Some pool \<longrightarrow>
      fst (CloseAddress p cl a) =
        last_error (close_errors cl CloseUnaryError (unaryConns pool) @
                    close_errors cl CloseStreamError (streamConns pool)) \<and>
      closeLog (snd (CloseAddress p cl a)) =
        closeLog p @ map conn (unaryConns pool) @ map conn (streamConns pool) \<and>
      pools (snd (CloseAddress p cl a)) = Some (AList.delete a (pool_list p))) \<and>
   (a' \<noteq> a \<longrightarrow> lookup_pool (snd (CloseAddress p cl a)) a' = lookup_pool p a') \<and>
   (pools p \<noteq> None \<and> make_ok mc (MinConnsPerAddr (config p)) \<longrightarrow>
      GetConn mc (snd (CloseAddress p cl a)) gs clk dial a m =
        (fst (select_or_create (config p) gs clk dial a m []),
         (snd (CloseAddress p cl a))
           \<lparr>pools := Some (AList.delete a (pool_list p) @
              [(a, set_conns m (snd (select_or_create (config p) gs clk dial a m []))
                     \<lparr>address = a, unaryConns = [], streamConns = []\<rparr>)])\<rparr>))"
proof (intro conjI impI)
  show none: "lookup_pool (snd (CloseAddress p cl a)) a = None"
    by (simp add: lookup_after_CloseAddress)
  then show "CloseAddress (snd (CloseAddress p cl a)) cl' a = (Ok (), snd (CloseAddress p cl a))"
    by (rule CloseAddress_absent)
  show "CloseAddress p cl a = (Ok (), p)" if "lookup_pool p a = None"
    using that by (rule CloseAddress_absent)
  show "fst (CloseAddress p cl a) =
        last_error (close_errors cl CloseUnaryError (unaryConns pool) @
                    close_errors cl CloseStreamError (streamConns pool))"
    "closeLog (snd (CloseAddress p cl a)) =
        closeLog p @ map conn (unaryConns pool) @ map conn (streamConns pool)"
    "pools (snd (CloseAddress p cl a)) = Some (AList.delete a (pool_list p))"
    if "lookup_pool p a = Some pool"
    by (simp_all add: CloseAddress_present [OF that])
  show "lookup_pool (snd (CloseAddress p cl a)) a' = lookup_pool p a'" if "a' \<noteq> a"
    using that by (simp add: lookup_after_CloseAddress)
  show "GetConn mc (snd (CloseAddress p cl a)) gs clk dial a m =
        (fst (select_or_create (config p) gs clk dial a m []),
         (snd (CloseAddress p cl a))
           \<lparr>pools := Some (AList.delete a (pool_list p) @
              [(a, set_conns m (snd (select_or_create (config p) gs clk dial a m []))
                     \<lparr>address = a, unaryConns = [], streamConns = []\<rparr>)])\<rparr>)"
    if h: "pools p \<noteq> None \<and> make_ok mc (MinConnsPerAddr (config p))"
  proof -
    from h have ps: "pools (snd (CloseAddress p cl a)) = Some (AList.delete a (pool_list p))"
      by (simp add: pools_after_CloseAddress)
    have absent: "map_of (AList.delete a (pool_list p)) a = None" by (simp add: delete_conv')
    from h have mk: "make_ok mc (MinConnsPerAddr (config (snd (CloseAddress p cl a))))" by simp
    from GetConn_absent [OF ps absent mk, of gs clk dial m] show ?thesis by simp
  qed
qed

theorem CloseAddress_idempotent_witness:
  "CloseAddress (ex_pool DefaultPoolConfig [ex_entry 1 1, ex_entry 2 0]) (\<lambda>h. if h = 1 then Some ''reset'' else None) ''a'' =
     (Err (CloseUnaryError ''reset''),
      \<lparr>pools = Some [], config = DefaultPoolConfig, stopped = False, closeLog = [1, 2]\<rparr>) \<and>
   CloseAddress \<lparr>pools = Some [], config = DefaultPoolConfig, stopped = False, closeLog = [1, 2]\<rparr>
       (\<lambda>h. None) ''a'' =
     (Ok (), \<lparr>pools = Some [], config = DefaultPoolConfig, stopped = False, closeLog = [1, 2]\<rparr>) \<and>
   GetConn ex_maxCap \<lparr>pools = Some [], config = DefaultPoolConfig, stopped = False, closeLog = [1, 2]\<rparr>
       ex_gs (ex_clock 0) (Inr 7) ''a'' False =
     (Ok 7,
      \<lparr>pools = Some [(''a'', \<lparr>address = ''a'',
           unaryConns = [\<lparr>conn = 7, lastUsed = 5, createdAt = 6, state = Ready, load = 1, isStream = False\<rparr>],
           streamConns = []\<rparr>)],
       config = DefaultPoolConfig, stopped = False, closeLog = [1, 2]\<rparr>)"
proof -
  let ?p = "ex_pool DefaultPoolConfig [ex_entry 1 1, ex_entry 2 0]"
  let ?cl = "\<lambda>h::handle. if h = 1 then Some ''reset'' else None"
  let ?p1 = "\<lparr>pools = Some [], config = DefaultPoolConfig, stopped = False, closeLog = [1, 2]\<rparr>"
  have first: "CloseAddress ?p ?cl ''a'' = (Err (CloseUnaryError ''reset''), ?p1)"
    by (simp add: CloseAddress_def lookup_pool_def pool_list_def ex_pool_def ex_entry_def to_result_def)
  have lk: "lookup_pool ?p ''a'' = Some \<lparr>address = ''a'', unaryConns = [ex_entry 1 1, ex_entry 2 0], streamConns = []\<rparr>"
    by (simp add: lookup_pool_def pool_list_def ex_pool_def)
  have h: "pools ?p \<noteq> None \<and> make_ok ex_maxCap (MinConnsPerAddr (config ?p))"
    by (simp add: ex_pool_def DefaultPoolConfig_def)
  note th = CloseAddress_idempotent [where mc = ex_maxCap, of ?p ?cl "''a''" "\<lambda>h. None"
      "\<lparr>address = ''a'', unaryConns = [ex_entry 1 1, ex_entry 2 0], streamConns = []\<rparr>" "''b''"
      ex_gs "ex_clock 0" "Inr 7" False, unfolded first snd_conv fst_conv]
  from th have second: "CloseAddress ?p1 (\<lambda>h. None) ''a'' = (Ok (), ?p1)" by blast
  from th h have "GetConn ex_maxCap ?p1 ex_gs (ex_clock 0) (Inr 7) ''a'' False =
        (fst (select_or_create (config ?p) ex_gs (ex_clock 0) (Inr 7) ''a'' False []),
         ?p1\<lparr>pools := Some (AList.delete ''a'' (pool_list ?p) @
              [(''a'', set_conns False (snd (select_or_create (config ?p) ex_gs (ex_clock 0) (Inr 7) ''a'' False []))
                     \<lparr>address = ''a'', unaryConns = [], streamConns = []\<rparr>)])\<rparr>)"
    by blast
  then have third: "GetConn ex_maxCap ?p1 ex_gs (ex_clock 0) (Inr 7) ''a'' False =
     (Ok 7,
      \<lparr>pools = Some [(''a'', \<lparr>address = ''a'',
           unaryConns = [\<lparr>conn = 7, lastUsed = 5, createdAt = 6, state = Ready, load = 1, isStream = False\<rparr>],
           streamConns = []\<rparr>)],
       config = DefaultPoolConfig, stopped = False, closeLog = [1, 2]\<rparr>)"
    by (simp add: select_or_create_def ex_pool_def pool_list_def set_conns_def ex_clock_def
          DefaultPoolConfig_def)
  from first second third show ?thesis by (simp only: simp_thms)
qed

subsection \<open>Stats\<close>

lemma foldl_count_conn:
  "foldl (count_conn gs) s cs =
     s\<lparr>ready_connections := ready_connections s + length (filter (\<lambda>c. gs (conn c) = Ready) cs),
       idle_connections := idle_connections s + length (filter (\<lambda>c. gs (conn c) = Ready \<and> load c = 0) cs),
       failed_connections := failed_connections s + length (filter (failed gs) cs),
       total_load := total_load s + sum_list (map load cs)\<rparr>"
proof (induction cs arbitrary: s)
  case Nil
  then show ?case by simp
next
  case (Cons c cs)
  have step: "count_conn gs s c =
     s\<lparr>ready_connections := ready_connections s + (if gs (conn c) = Ready then 1 else 0),
       idle_connections := idle_connections s + (if gs (conn c) = Ready \<and> load c = 0 then 1 else 0),
       failed_connections := failed_connections s + (if failed gs c then 1 else 0),
       total_load := total_load s + load c\<rparr>"
    by (cases "gs (conn c)") (simp_all add: count_conn_def Let_def failed_def)
  show ?case
    by (simp only: foldl_Cons Cons.IH) (simp add: step add.assoc)
qed

lemma addr_stats_eq: "addr_stats gs cs = counters_of gs cs"
  by (simp add: addr_stats_def foldl_count_conn counters_of_def zero_counters_def)

lemma counters_of_append:
  "counters_of gs (xs @ ys) = add_counters (counters_of gs xs) (counters_of gs ys)"
  by (simp add: counters_of_def add_counters_def)

lemma counters_of_Nil: "counters_of gs [] = zero_counters"
  by (simp add: counters_of_def zero_counters_def)

lemma Stats_snoc:
  "foldl (Stats_step gs) st (ps @ [(b, q)]) =
     \<lparr>unary = add_addr b (counters_of gs (unaryConns q)) (unary (foldl (Stats_step gs) st ps)),
      stream = add_addr b (counters_of gs (streamConns q)) (stream (foldl (Stats_step gs) st ps))\<rparr>"
  by (simp add: Stats_step_def addr_stats_eq)

lemma Stats_totals:
  "total (unary (foldl (Stats_step gs) empty_stats ps)) =
     counters_of gs (concat (map (\<lambda>(a, pool). unaryConns pool) ps)) \<and>
   total (stream (foldl (Stats_step gs) empty_stats ps)) =
     counters_of gs (concat (map (\<lambda>(a, pool). streamConns pool) ps))"
proof (induction ps rule: rev_induct)
  case Nil
  then show ?case by (simp add: empty_stats_def counters_of_Nil)
next
  case (snoc x ps)
  obtain b q where x: "x = (b, q)" by (cases x)
  from snoc show ?case
    unfolding x Stats_snoc by (simp add: add_addr_def counters_of_append)
qed

lemma Stats_by_address:
  assumes "distinct (map fst ps)"
  shows "by_address (unary (foldl (Stats_step gs) empty_stats ps)) a =
           map_option (\<lambda>pool. counters_of gs (unaryConns pool)) (map_of ps a) \<and>
         by_address (stream (foldl (Stats_step gs) empty_stats ps)) a =
           map_option (\<lambda>pool. counters_of gs (streamConns pool)) (map_of ps a)"
  using assms
proof (induction ps rule: rev_induct)
  case Nil
  then show ?case by (simp add: empty_stats_def)
next
  case (snoc x ps)
  obtain b q where x: "x = (b, q)" by (cases x)
  from snoc.prems x have d: "distinct (map fst ps)" and nb: "b \<notin> fst ` set ps" by simp_all
  from nb have none: "map_of ps b = None" by (simp add: map_of_eq_None_iff)
  have lk: "map_of (ps @ [(b, q)]) a = (if a = b then Some q else map_of ps a)"
    using none by (auto simp: map_add_def split: option.splits)
  from snoc.IH [OF d] show ?case
    unfolding x Stats_snoc lk by (simp add: add_addr_def)
qed

text \<open>
  Claim C8. For every address of the map, \<^verbatim>\<open>Stats\<close> reports under \<open>by_address\<close>, for each
  mode, the counters of that address's collection, and under \<open>total\<close> the counters of all
  collections of the mode together: the number of entries, of entries whose handle is
  \<open>Ready\<close>, of entries whose handle is \<open>Ready\<close> with load 0, of entries whose handle is
  \<open>TransientFailure\<close> or \<open>Shutdown\<close>, and the sum of the loads (added in \<^verbatim>\<open>int32\<close>, as the
  loads are). An address that is not in the map has no entry under \<open>by_address\<close>. On one
  address with two \<open>Ready\<close> entries of loads 1 and 0 the counters are 2, 2, 1, 0 and 1.
\<close>

theorem Stats_counters:
  "(distinct (map fst (pool_list p)) \<longrightarrow>
      by_address (unary (Stats p gs)) a =
        map_option (\<lambda>pool. counters_of gs (unaryConns pool)) (lookup_pool p a) \<and>
      by_address (stream (Stats p gs)) a =
        map_option (\<lambda>pool. counters_of gs (streamConns pool)) (lookup_pool p a)) \<and>
   total (unary (Stats p gs)) = counters_of gs (concat (map (\<lambda>(a, pool). unaryConns pool) (pool_list p))) \<and>
   total (stream (Stats p gs)) = counters_of gs (concat (map (\<lambda>(a, pool). streamConns pool) (pool_list p))) \<and>
   (pool_list p = [(a, pool)] \<and> unaryConns pool = [c1, c2] \<and>
    gs (conn c1) = Ready \<and> gs (conn c2) = Ready \<and> load c1 = 1 \<and> load c2 = 0 \<longrightarrow>
      by_address (unary (Stats p gs)) a =
        Some \<lparr>total_connections = 2, ready_connections = 2, idle_connections = 1,
              failed_connections = 0, total_load = 1\<rparr> \<and>
      total (unary (Stats p gs)) =
        \<lparr>total_connections = 2, ready_connections = 2, idle_connections = 1,
         failed_connections = 0, total_load = 1\<rparr>)"
proof (intro conjI impI)
  assume d: "distinct (map fst (pool_list p))"
  from Stats_by_address [OF d, of gs a]
  show "by_address (unary (Stats p gs)) a =
        map_option (\<lambda>pool. counters_of gs (unaryConns pool)) (lookup_pool p a)"
    "by_address (stream (Stats p gs)) a =
        map_option (\<lambda>pool. counters_of gs (streamConns pool)) (lookup_pool p a)"
    by (simp_all add: Stats_def lookup_pool_def)
next
  from Stats_totals [of gs "pool_list p"]
  show "total (unary (Stats p gs)) = counters_of gs (concat (map (\<lambda>(a, pool). unaryConns pool) (pool_list p)))"
    "total (stream (Stats p gs)) = counters_of gs (concat (map (\<lambda>(a, pool). streamConns pool) (pool_list p)))"
    by (simp_all add: Stats_def)
next
  assume sc: "pool_list p = [(a, pool)] \<and> unaryConns pool = [c1, c2] \<and>
    gs (conn c1) = Ready \<and> gs (conn c2) = Ready \<and> load c1 = 1 \<and> load c2 = 0"
  then have cnt: "counters_of gs (unaryConns pool) =
      \<lparr>total_connections = 2, ready_connections = 2, idle_connections = 1,
         failed_connections = 0, total_load = 1\<rparr>"
    by (simp add: counters_of_def failed_def)
  have d: "distinct (map fst (pool_list p))" using sc by simp
  from Stats_by_address [OF d, of gs a] sc cnt
  show "by_address (unary (Stats p gs)) a =
        Some \<lparr>total_connections = 2, ready_connections = 2, idle_connections = 1,
              failed_connections = 0, total_load = 1\<rparr>"
    by (simp add: Stats_def)
  from Stats_totals [of gs "pool_list p"] sc cnt
  show "total (unary (Stats p gs)) =
        \<lparr>total_connections = 2, ready_connections = 2, idle_connections = 1,
         failed_connections = 0, total_load = 1\<rparr>"
    by (simp add: Stats_def)
qed

theorem Stats_counters_witness:
  "by_address (unary (Stats (ex_pool DefaultPoolConfig [ex_entry 1 1, ex_entry 2 0]) ex_gs)) ''a'' =
     Some \<lparr>total_connections = 2, ready_connections = 2, idle_connections = 1,
           failed_connections = 0, total_load = 1\<rparr> \<and>
   total (unary (Stats (ex_pool DefaultPoolConfig [ex_entry 1 1, ex_entry 2 0]) ex_gs)) =
     \<lparr>total_connections = 2, ready_connections = 2, idle_connections = 1,
      failed_connections = 0, total_load = 1\<rparr> \<and>
   by_address (stream (Stats (ex_pool DefaultPoolConfig [ex_entry 1 1, ex_entry 2 0]) ex_gs)) ''a'' =
     Some zero_counters \<and>
   by_address (unary (Stats (ex_pool DefaultPoolConfig [ex_entry 1 1, ex_entry 2 0]) ex_gs)) ''b'' = None \<and>
   total (unary (Stats (ex_pool DefaultPoolConfig [ex_entry 3 4, ex_entry 2 0, ex_entry 1 2]) ex_gs)) =
     \<lparr>total_connections = 3, ready_connections = 2, idle_connections = 1,
      failed_connections = 1, total_load = 6\<rparr>"
proof -
  let ?pool = "\<lparr>address = ''a'', unaryConns = [ex_entry 1 1, ex_entry 2 0], streamConns = []\<rparr>"
  let ?p = "ex_pool DefaultPoolConfig [ex_entry 1 1, ex_entry 2 0]"
  let ?q = "ex_pool DefaultPoolConfig [ex_entry 3 4, ex_entry 2 0, ex_entry 1 2]"
  have pl: "pool_list ?p = [(''a'', ?pool)]" by (simp add: pool_list_def ex_pool_def)
  have sc: "pool_list ?p = [(''a'', ?pool)] \<and> unaryConns ?pool = [ex_entry 1 1, ex_entry 2 0] \<and>
    ex_gs (conn (ex_entry 1 1)) = Ready \<and> ex_gs (conn (ex_entry 2 0)) = Ready \<and>
    load (ex_entry 1 1) = 1 \<and> load (ex_entry 2 0) = 0"
    using pl by (simp add: ex_gs_def ex_entry_def)
  have d: "distinct (map fst (pool_list ?p))" unfolding pl by simp
  have lk: "lookup_pool ?p ''a'' = Some ?pool" "lookup_pool ?p ''b'' = None"
    unfolding lookup_pool_def pl by simp_all
  note th = Stats_counters [of ?p ex_gs "''a''" ?pool "ex_entry 1 1" "ex_entry 2 0"]
  from th sc have w1: "by_address (unary (Stats ?p ex_gs)) ''a'' =
     Some \<lparr>total_connections = 2, ready_connections = 2, idle_connections = 1,
           failed_connections = 0, total_load = 1\<rparr>"
    and w2: "total (unary (Stats ?p ex_gs)) =
     \<lparr>total_connections = 2, ready_connections = 2, idle_connections = 1,
      failed_connections = 0, total_load = 1\<rparr>"
    by blast+
  from th d have "by_address (stream (Stats ?p ex_gs)) ''a'' =
        map_option (\<lambda>pool. counters_of ex_gs (streamConns pool)) (lookup_pool ?p ''a'')"
    by blast
  then have w3: "by_address (stream (Stats ?p ex_gs)) ''a'' = Some zero_counters"
    unfolding lk by (simp add: counters_of_Nil)
  from Stats_counters [of ?p ex_gs "''b''" ?pool "ex_entry 1 1" "ex_entry 2 0"] d
  have "by_address (unary (Stats ?p ex_gs)) ''b'' =
        map_option (\<lambda>pool. counters_of ex_gs (unaryConns pool)) (lookup_pool ?p ''b'')"
    by blast
  then have w4: "by_address (unary (Stats ?p ex_gs)) ''b'' = None" unfolding lk by simp
  from Stats_counters [of ?q ex_gs "''a''" ?pool "ex_entry 1 1" "ex_entry 2 0"]
  have "total (unary (Stats ?q ex_gs)) =
      counters_of ex_gs (concat (map (\<lambda>(a, pool). unaryConns pool) (pool_list ?q)))"
    by blast
  then have w5: "total (unary (Stats ?q ex_gs)) =
     \<lparr>total_connections = 3, ready_connections = 2, idle_connections = 1,
      failed_connections = 1, total_load = 6\<rparr>"
    by (simp add: pool_list_def ex_pool_def counters_of_def failed_def ex_gs_def ex_entry_def)
  from w1 w2 w3 w4 w5 show ?thesis by (simp only: simp_thms)
qed

end
